theory Spec2Isabelle
  imports Complex_Main
begin

section \<open>Text: the Python string and regular-expression primitives the cleaning functions use\<close>

text \<open>
  Python text is modelled as \<^typ>\<open>string\<close>. The character classes are the ones Python 3
  gives on code points below 128: \<^verbatim>\<open>\s\<close> and \<^verbatim>\<open>str.strip()\<close> take the ten
  characters 9-13 and 28-32 as whitespace, \<^verbatim>\<open>\d\<close> the ten decimal digits,
  \<^verbatim>\<open>\w\<close> the letters, the digits and the underscore, and \<^verbatim>\<open>str.lower()\<close> and the flag
  \<^verbatim>\<open>(?i)\<close> fold \<^verbatim>\<open>A-Z\<close> to \<^verbatim>\<open>a-z\<close>. Characters from 128 on belong to no class.
\<close>

definition upper_letters :: string where
  "upper_letters = ''ABCDEFGHIJKLMNOPQRSTUVWXYZ''"

definition lower_letters :: string where
  "lower_letters = ''abcdefghijklmnopqrstuvwxyz''"

definition digit_chars :: string where
  "digit_chars = ''0123456789''"

definition space_chars :: string where
  "space_chars = [CHR 0x09, CHR 0x0A, CHR 0x0B, CHR 0x0C, CHR 0x0D,
                  CHR 0x1C, CHR 0x1D, CHR 0x1E, CHR 0x1F, CHR 0x20]"

definition is_space :: "char \<Rightarrow> bool" where
  "is_space c = (c \<in> set space_chars)"

definition is_digit :: "char \<Rightarrow> bool" where
  "is_digit c = (c \<in> set digit_chars)"

text \<open>The class \<^verbatim>\<open>[a-zA-Z0-9_]\<close>, which is also \<^verbatim>\<open>\w\<close> below code point 128.\<close>

definition ident_char :: "char \<Rightarrow> bool" where
  "ident_char c =
     (c \<in> set lower_letters \<or> c \<in> set upper_letters \<or> c \<in> set digit_chars \<or> c = CHR ''_'')"

definition is_word :: "char \<Rightarrow> bool" where
  "is_word c = ident_char c"

definition lower_char :: "char \<Rightarrow> char" where
  "lower_char c = (case map_of (zip upper_letters lower_letters) c of Some d \<Rightarrow> d | None \<Rightarrow> c)"

text \<open>\<^verbatim>\<open>s.lower()\<close> and \<^verbatim>\<open>s.strip()\<close>.\<close>

definition py_lower :: "string \<Rightarrow> string" where
  "py_lower s = map lower_char s"

definition py_strip :: "string \<Rightarrow> string" where
  "py_strip s = rev (dropWhile is_space (rev (dropWhile is_space s)))"

section \<open>The dataset: a pandas DataFrame\<close>

text \<open>
  A cell is a value or one of the markers that \<^verbatim>\<open>isnull()\<close> counts as missing: the float
  \<^verbatim>\<open>nan\<close>, Python's \<^verbatim>\<open>None\<close> (what a SQL NULL of a text column is read as),
  \<^verbatim>\<open>NaT\<close> and \<^verbatim>\<open>pd.NA\<close>. Float values are idealised as real numbers: rounding,
  overflow and the infinities are outside the model. A column carries its name, its dtype
  and its cells; a frame is the list of its columns, in order.
\<close>

datatype missing = NaN | PyNone | NaT | NA

datatype cell =
    Missing missing
  | IntV int
  | FloatV real
  | TextV string
  | BoolV bool
  | DateV int

datatype dtype = Int64 | Float64 | NullableInt64 | Object | Boolean | Datetime64

record column =
  name :: string
  dtype :: dtype
  cells :: "cell list"

type_synonym dataframe = "column list"

datatype error = KeyError | TypeError

fun is_missing :: "cell \<Rightarrow> bool" where
  "is_missing (Missing k) = True"
| "is_missing c = False"

text \<open>\<^verbatim>\<open>select_dtypes(include=np.number)\<close> keeps the columns of a numeric dtype.\<close>

fun is_numeric :: "dtype \<Rightarrow> bool" where
  "is_numeric Int64 = True"
| "is_numeric Float64 = True"
| "is_numeric NullableInt64 = True"
| "is_numeric d = False"

text \<open>
  \<^verbatim>\<open>df[col]\<close> reads the column of that name (\<^verbatim>\<open>KeyError\<close> when there is none, which
  is \<open>None\<close> here and an error at the caller), \<^verbatim>\<open>df[col] = series\<close> replaces it in
  place or appends a new last column. Both are what pandas does on a frame whose column
  names are distinct.
\<close>

definition get_col :: "dataframe \<Rightarrow> string \<Rightarrow> column option" where
  "get_col df col = find (\<lambda>c. name c = col) df"

definition set_col :: "dataframe \<Rightarrow> string \<Rightarrow> dtype \<Rightarrow> cell list \<Rightarrow> dataframe" where
  "set_col df col d xs =
     (if col \<in> set (map name df)
      then map (\<lambda>c. if name c = col then c\<lparr>dtype := d, cells := xs\<rparr> else c) df
      else df @ [\<lparr>name = col, dtype = d, cells = xs\<rparr>])"

section \<open>Column Normalizer: \<^verbatim>\<open>standardize_column_names\<close>\<close>

text \<open>
  \<^verbatim>\<open>re.sub(r"[^a-zA-Z0-9_]", "_", col.strip().lower())\<close>: every character outside the
  class is replaced by an underscore, one for one.
\<close>

definition canonical_name :: "string \<Rightarrow> string" where
  "canonical_name col =
     map (\<lambda>c. if ident_char c then c else CHR ''_'') (py_lower (py_strip col))"

definition standardize_column_names :: "dataframe \<Rightarrow> dataframe" where
  "standardize_column_names df = map (\<lambda>c. c\<lparr>name := canonical_name (name c)\<rparr>) df"

section \<open>Facts about the character classes\<close>

lemma lower_char_not_upper: "lower_char c \<notin> set upper_letters"
  by (auto simp: lower_char_def upper_letters_def lower_letters_def)

lemma lower_char_fixed: "c \<notin> set upper_letters \<Longrightarrow> lower_char c = c"
  by (auto simp: lower_char_def upper_letters_def lower_letters_def)

lemma ident_char_not_space: "ident_char c \<Longrightarrow> \<not> is_space c"
  by (auto simp: ident_char_def is_space_def space_chars_def upper_letters_def
      lower_letters_def digit_chars_def)

lemma underscore_ident: "ident_char (CHR ''_'')"
  by (simp add: ident_char_def)

lemma underscore_not_upper: "CHR ''_'' \<notin> set upper_letters"
  by (simp add: upper_letters_def)

section \<open>The Column Normalizer is idempotent\<close>

text \<open>A canonical name holds identifier characters only, none of them an upper-case letter.\<close>

definition canonical :: "string \<Rightarrow> bool" where
  "canonical s = list_all (\<lambda>c. ident_char c \<and> c \<notin> set upper_letters) s"

lemma canonical_canonical_name: "canonical (canonical_name s)"
  unfolding canonical_def canonical_name_def py_lower_def list_all_iff
  by (auto simp: underscore_ident underscore_not_upper lower_char_not_upper)

lemma py_strip_no_space:
  assumes "list_all (\<lambda>c. \<not> is_space c) s"
  shows "py_strip s = s"
proof -
  have a: "dropWhile is_space s = s"
    using assms by (cases s) auto
  have "list_all (\<lambda>c. \<not> is_space c) (rev s)"
    using assms by (simp add: list_all_iff)
  then have b: "dropWhile is_space (rev s) = rev s"
    by (cases "rev s") auto
  show ?thesis
    by (simp add: py_strip_def a b)
qed

lemma canonical_name_fixed:
  assumes "canonical s"
  shows "canonical_name s = s"
proof -
  have "list_all (\<lambda>c. \<not> is_space c) s"
    using assms by (auto simp: canonical_def list_all_iff ident_char_not_space)
  then have strip: "py_strip s = s"
    by (rule py_strip_no_space)
  have lower: "py_lower s = s"
    using assms by (auto simp: canonical_def list_all_iff py_lower_def lower_char_fixed intro: map_idI)
  have "map (\<lambda>c. if ident_char c then c else CHR ''_'') s = s"
    using assms by (auto simp: canonical_def list_all_iff intro: map_idI)
  then show ?thesis
    by (simp add: canonical_name_def strip lower)
qed

lemma canonical_name_idem: "canonical_name (canonical_name s) = canonical_name s"
  by (rule canonical_name_fixed) (rule canonical_canonical_name)

text \<open>
  C8. The Column Normalizer is idempotent: normalising a normalised frame changes nothing.
  One pass gives every column the canonical form of its name (stripped, lower-cased, every
  character outside \<^verbatim>\<open>[a-zA-Z0-9_]\<close> replaced by an underscore) and leaves the dtypes
  and the cells of every column as they were.
\<close>

theorem standardize_column_names_idempotent:
  "standardize_column_names (standardize_column_names df) = standardize_column_names df
   \<and> map name (standardize_column_names df) = map (\<lambda>c. canonical_name (name c)) df
   \<and> map cells (standardize_column_names df) = map cells df
   \<and> map dtype (standardize_column_names df) = map dtype df"
  by (simp add: standardize_column_names_def canonical_name_idem comp_def)

section \<open>Title Stripper: \<^verbatim>\<open>remove_extra_titles\<close>\<close>

text \<open>
  The pattern is \<^verbatim>\<open>(?i)\b(mr|mrs|dr|ms|shri)\.?\s*\<close> and \<^verbatim>\<open>str.replace\<close> with
  \<^verbatim>\<open>regex=True\<close> is \<^verbatim>\<open>re.sub\<close>: it replaces every match, scanning from the left.

  \<open>ci_prefix p s\<close> matches the lower-case literal \<open>p\<close> at the start of \<open>s\<close> without regard
  to case and returns the text after it. \<open>first_alt\<close> is the ordered alternation: whatever
  follows the group (\<^verbatim>\<open>\.?\s*\<close>) matches at any position, so the engine never
  comes back to try a later alternative and the first one that matches is taken.
\<close>

fun ci_prefix :: "string \<Rightarrow> string \<Rightarrow> string option" where
  "ci_prefix [] s = Some s"
| "ci_prefix (p # ps) [] = None"
| "ci_prefix (p # ps) (c # cs) = (if lower_char c = p then ci_prefix ps cs else None)"

fun first_alt :: "string list \<Rightarrow> string \<Rightarrow> string option" where
  "first_alt [] s = None"
| "first_alt (t # ts) s = (case ci_prefix t s of Some r \<Rightarrow> Some r | None \<Rightarrow> first_alt ts s)"

definition titles :: "string list" where
  "titles = [''mr'', ''mrs'', ''dr'', ''ms'', ''shri'']"

text \<open>\<^verbatim>\<open>\.?\<close> is greedy: a period is taken when there is one. \<^verbatim>\<open>\s*\<close> takes all the
  whitespace that follows. \<open>match_title s\<close> is the text after a match that starts at the
  start of \<open>s\<close>.\<close>

definition opt_dot :: "string \<Rightarrow> string" where
  "opt_dot s = (case s of [] \<Rightarrow> [] | c # r \<Rightarrow> if c = CHR ''.'' then r else s)"

definition match_title :: "string \<Rightarrow> string option" where
  "match_title s = map_option (\<lambda>r. dropWhile is_space (opt_dot r)) (first_alt titles s)"

text \<open>The last character of the match that took \<open>s\<close> to its suffix \<open>r\<close>.\<close>

definition last_consumed :: "string \<Rightarrow> string \<Rightarrow> char" where
  "last_consumed s r = last (take (length s - length r) s)"

lemma ci_prefix_length: "ci_prefix p s = Some r \<Longrightarrow> length s = length p + length r"
  by (induction p s rule: ci_prefix.induct) (auto split: if_splits)

lemma first_alt_length:
  "first_alt ts s = Some r \<Longrightarrow> list_all (\<lambda>t. t \<noteq> []) ts \<Longrightarrow> length r < length s"
  by (induction ts) (auto split: option.splits dest: ci_prefix_length)

lemma opt_dot_length: "length (opt_dot r) \<le> length r"
  by (auto simp: opt_dot_def split: list.splits)

lemma match_title_length: "match_title s = Some r \<Longrightarrow> length r < length s"
proof -
  assume "match_title s = Some r"
  then obtain r0 where a: "first_alt titles s = Some r0" and b: "r = dropWhile is_space (opt_dot r0)"
    by (auto simp: match_title_def)
  have "length r0 < length s"
    using a by (rule first_alt_length) (simp add: titles_def)
  moreover have "length r \<le> length (opt_dot r0)"
    unfolding b by (rule length_dropWhile_le)
  ultimately show ?thesis
    using opt_dot_length [of r0] by linarith
qed

text \<open>
  The scan of \<^verbatim>\<open>re.sub\<close> with the empty replacement. The flag says whether the
  character before the current position is a word character: a match starts with a
  letter, so \<^verbatim>\<open>\b\<close> holds exactly when it is not (or at the start of the text). Where
  the pattern matches, the match is dropped and the scan goes on after it; elsewhere the
  character is kept.
\<close>

function sub_titles :: "bool \<Rightarrow> string \<Rightarrow> string" where
  "sub_titles pw [] = []"
| "sub_titles pw (c # cs) =
     (if pw then c # sub_titles (is_word c) cs
      else case match_title (c # cs) of
             None \<Rightarrow> c # sub_titles (is_word c) cs
           | Some r \<Rightarrow> sub_titles (is_word (last_consumed (c # cs) r)) r)"
  by pat_completeness auto
termination
  by (relation "measure (\<lambda>(pw, s). length s)") (auto dest: match_title_length)

definition re_sub_titles :: "string \<Rightarrow> string" where
  "re_sub_titles s = sub_titles False s"

section \<open>What the Title Stripper removes\<close>

text \<open>What is left of the text after a title: the period and the whitespace behind the
  title go with it, and the scan goes on from there.\<close>

definition after_title :: "string \<Rightarrow> string" where
  "after_title rest =
     (let r = dropWhile is_space (opt_dot rest) in sub_titles (length r = length rest) r)"

lemma ci_prefix_append: "ci_prefix p s = Some r \<Longrightarrow> ci_prefix p (s @ x) = Some (r @ x)"
  by (induction p s rule: ci_prefix.induct) (auto split: if_splits)

definition letters_only :: "string \<Rightarrow> bool" where
  "letters_only p = list_all (\<lambda>c. c \<in> set lower_letters) p"

lemma lower_char_letter_word: "lower_char c \<in> set lower_letters \<Longrightarrow> is_word c"
  by (auto simp: lower_char_def is_word_def ident_char_def upper_letters_def lower_letters_def
      split: option.splits if_splits)

lemma ci_prefix_none_append:
  "ci_prefix p s = None \<Longrightarrow> letters_only p \<Longrightarrow> s \<noteq> [] \<Longrightarrow> \<not> is_word (last s)
    \<Longrightarrow> ci_prefix p (s @ x) = None"
proof (induction p s rule: ci_prefix.induct)
  case (1 s)
  then show ?case by simp
next
  case (2 p ps)
  then show ?case by simp
next
  case (3 p ps c cs)
  show ?case
  proof (cases "lower_char c = p")
    case False
    then show ?thesis by simp
  next
    case True
    have pl: "p \<in> set lower_letters" and ps: "letters_only ps"
      using "3.prems"(2) by (auto simp: letters_only_def)
    have w: "is_word c"
      using True pl lower_char_letter_word by blast
    have ne: "cs \<noteq> []"
      using w "3.prems"(4) by (cases cs) auto
    have "ci_prefix ps cs = None"
      using "3.prems"(1) True by simp
    then have "ci_prefix ps (cs @ x) = None"
      using "3.IH" True ps ne "3.prems"(4) by auto
    then show ?thesis using True by simp
  qed
qed

lemma first_alt_append:
  assumes "list_all letters_only ts" "s \<noteq> []" "\<not> is_word (last s)"
  shows "first_alt ts (s @ x) = map_option (\<lambda>r. r @ x) (first_alt ts s)"
  using assms(1)
proof (induction ts)
  case Nil
  then show ?case by simp
next
  case (Cons t ts)
  show ?case
  proof (cases "ci_prefix t s")
    case None
    then have "ci_prefix t (s @ x) = None"
      using ci_prefix_none_append Cons.prems assms(2,3) by auto
    then show ?thesis using None Cons by simp
  next
    case (Some r)
    then show ?thesis by (simp add: ci_prefix_append)
  qed
qed

lemma titles_letters: "list_all letters_only titles"
  by (simp add: titles_def letters_only_def lower_letters_def)

lemma opt_dot_append: "x \<noteq> [] \<Longrightarrow> hd x \<noteq> CHR ''.'' \<Longrightarrow> opt_dot (r @ x) = opt_dot r @ x"
  by (cases r; cases x) (auto simp: opt_dot_def)

lemma dropWhile_space_append:
  "x \<noteq> [] \<Longrightarrow> \<not> is_space (hd x) \<Longrightarrow> dropWhile is_space (r @ x) = dropWhile is_space r @ x"
  by (induction r) (auto simp: neq_Nil_conv)

lemma word_not_dot_space: "is_word c \<Longrightarrow> c \<noteq> CHR ''.'' \<and> \<not> is_space c"
  by (auto simp: is_word_def ident_char_def is_space_def space_chars_def upper_letters_def
      lower_letters_def digit_chars_def)

lemma match_title_append:
  assumes "s \<noteq> []" "\<not> is_word (last s)" "x \<noteq> []" "is_word (hd x)"
  shows "match_title (s @ x) = map_option (\<lambda>r. r @ x) (match_title s)"
proof -
  have d: "hd x \<noteq> CHR ''.''" and sp: "\<not> is_space (hd x)"
    using assms(4) word_not_dot_space by auto
  show ?thesis
    unfolding match_title_def first_alt_append [OF titles_letters assms(1,2)]
    by (cases "first_alt titles s")
      (simp_all add: opt_dot_append [OF assms(3) d] dropWhile_space_append [OF assms(3) sp])
qed

lemma match_title_suffix: "match_title s = Some r \<Longrightarrow> \<exists>u. s = u @ r \<and> u \<noteq> []"
proof -
  assume a: "match_title s = Some r"
  have "\<exists>u. s = u @ r"
  proof -
    obtain r0 where f: "first_alt titles s = Some r0" and r: "r = dropWhile is_space (opt_dot r0)"
      using a by (auto simp: match_title_def)
    have "\<And>ts. first_alt ts s = Some r0 \<Longrightarrow> \<exists>u. s = u @ r0"
    proof -
      fix ts show "first_alt ts s = Some r0 \<Longrightarrow> \<exists>u. s = u @ r0"
      proof (induction ts)
        case Nil then show ?case by simp
      next
        case (Cons t ts)
        have "\<And>p s'. ci_prefix p s' = Some r0 \<Longrightarrow> \<exists>u. s' = u @ r0"
        proof -
          fix p s' show "ci_prefix p s' = Some r0 \<Longrightarrow> \<exists>u. s' = u @ r0"
            by (induction p s' rule: ci_prefix.induct) (auto split: if_splits intro: exI [of _ "_ # _"])
        qed
        then show ?case using Cons by (auto split: option.splits)
      qed
    qed
    then obtain u0 where u0: "s = u0 @ r0" using f by blast
    have "\<exists>v. r0 = v @ opt_dot r0"
      by (cases r0) (auto simp: opt_dot_def intro: exI [of _ "[_]"])
    then obtain v where v: "r0 = v @ opt_dot r0" ..
    have "opt_dot r0 = takeWhile is_space (opt_dot r0) @ r"
      by (simp add: r)
    then have "s = (u0 @ v @ takeWhile is_space (opt_dot r0)) @ r"
      using u0 v by (metis append.assoc)
    then show ?thesis ..
  qed
  then obtain u where u: "s = u @ r" ..
  have "length r < length s" using a by (rule match_title_length)
  then have "u \<noteq> []" using u by auto
  then show ?thesis using u by blast
qed

lemma last_consumed_append: "u \<noteq> [] \<Longrightarrow> last_consumed (u @ r) r = last u"
  by (simp add: last_consumed_def)

lemma sub_titles_append:
  "s \<noteq> [] \<Longrightarrow> \<not> is_word (last s) \<Longrightarrow> x \<noteq> [] \<Longrightarrow> is_word (hd x)
    \<Longrightarrow> sub_titles pw (s @ x) = sub_titles pw s @ sub_titles False x"
proof (induction pw s rule: sub_titles.induct)
  case (1 pw)
  then show ?case by simp
next
  case (2 pw c cs)
  note prems = "2.prems"
  have step: "c # sub_titles (is_word c) (cs @ x) = (c # sub_titles (is_word c) cs) @ sub_titles False x"
    if ih: "cs \<noteq> [] \<Longrightarrow> sub_titles (is_word c) (cs @ x) = sub_titles (is_word c) cs @ sub_titles False x"
  proof (cases "cs = []")
    case True
    then have "\<not> is_word c" using prems(2) by simp
    then show ?thesis using True by simp
  next
    case False
    then show ?thesis using ih by simp
  qed
  show ?case
  proof (cases pw)
    case True
    have "cs \<noteq> [] \<Longrightarrow> sub_titles (is_word c) (cs @ x) = sub_titles (is_word c) cs @ sub_titles False x"
      using "2.IH"(1) True prems by simp
    then show ?thesis using True step by simp
  next
    case False
    note npw = False
    have mt: "match_title ((c # cs) @ x) = map_option (\<lambda>r. r @ x) (match_title (c # cs))"
      using match_title_append prems by blast
    show ?thesis
    proof (cases "match_title (c # cs)")
      case None
      have "cs \<noteq> [] \<Longrightarrow> sub_titles (is_word c) (cs @ x) = sub_titles (is_word c) cs @ sub_titles False x"
        using "2.IH"(2) npw None prems by simp
      then show ?thesis using npw None mt step by simp
    next
      case (Some r)
      then obtain u where u: "c # cs = u @ r" "u \<noteq> []"
        using match_title_suffix by blast
      have lc1: "last_consumed (c # cs) r = last u"
        using u last_consumed_append by metis
      have "(c # cs) @ x = u @ (r @ x)" using u by simp
      then have lc2: "last_consumed ((c # cs) @ x) (r @ x) = last u"
        using u(2) last_consumed_append by metis
      have rec: "sub_titles (is_word (last u)) (r @ x) = sub_titles (is_word (last u)) r @ sub_titles False x"
      proof (cases "r = []")
        case True
        then have "last u = last (c # cs)" using u by simp
        then have "\<not> is_word (last u)" using prems(2) by simp
        then show ?thesis using True by simp
      next
        case False
        then have "last r = last (c # cs)" using u by (metis last_appendR)
        then have "\<not> is_word (last r)" using prems(2) by simp
        then show ?thesis
          using "2.IH"(3) [OF npw Some False _ prems(3,4)] lc1 by simp
      qed
      have "sub_titles pw ((c # cs) @ x) = sub_titles (is_word (last u)) (r @ x)"
        using npw mt Some lc2 by simp
      moreover have "sub_titles pw (c # cs) = sub_titles (is_word (last u)) r"
        using npw Some lc1 by simp
      ultimately show ?thesis using rec by simp
    qed
  qed
qed

text \<open>One of the honorifics Mr, Dr, Ms, Shri, in any mix of cases.\<close>

definition title_word :: "string \<Rightarrow> bool" where
  "title_word t = (py_lower t \<in> set [''mr'', ''dr'', ''ms'', ''shri''])"

lemma title_word_first_alt:
  assumes "title_word t"
  shows "first_alt titles (t @ rest) = Some rest \<and> t \<noteq> [] \<and> is_word (last t)"
proof -
  consider "map lower_char t = ''mr''" | "map lower_char t = ''dr''"
    | "map lower_char t = ''ms''" | "map lower_char t = ''shri''"
    using assms by (auto simp: title_word_def py_lower_def)
  then show ?thesis
  proof cases
    case 1
    then obtain a b where t: "t = [a, b]" "lower_char a = CHR ''m''" "lower_char b = CHR ''r''"
      by (auto simp: map_eq_Cons_conv)
    have "lower_char b \<in> set lower_letters" using t by (simp add: lower_letters_def)
    then show ?thesis using t by (simp add: titles_def lower_char_letter_word)
  next
    case 2
    then obtain a b where t: "t = [a, b]" "lower_char a = CHR ''d''" "lower_char b = CHR ''r''"
      by (auto simp: map_eq_Cons_conv)
    have "lower_char b \<in> set lower_letters" using t by (simp add: lower_letters_def)
    then show ?thesis using t by (simp add: titles_def lower_char_letter_word)
  next
    case 3
    then obtain a b where t: "t = [a, b]" "lower_char a = CHR ''m''" "lower_char b = CHR ''s''"
      by (auto simp: map_eq_Cons_conv)
    have "lower_char b \<in> set lower_letters" using t by (simp add: lower_letters_def)
    then show ?thesis using t by (simp add: titles_def lower_char_letter_word)
  next
    case 4
    then obtain a b c d where t: "t = [a, b, c, d]" "lower_char a = CHR ''s''"
        "lower_char b = CHR ''h''" "lower_char c = CHR ''r''" "lower_char d = CHR ''i''"
      by (auto simp: map_eq_Cons_conv)
    have "lower_char d \<in> set lower_letters" using t by (simp add: lower_letters_def)
    then show ?thesis using t by (simp add: titles_def lower_char_letter_word)
  qed
qed

lemma dot_space_split:
  "\<exists>v. rest = v @ dropWhile is_space (opt_dot rest) \<and> (v \<noteq> [] \<longrightarrow> \<not> is_word (last v))"
proof -
  define r1 where "r1 = opt_dot rest"
  have not_word_dot: "\<not> is_word (CHR ''.'')"
    by (simp add: is_word_def ident_char_def lower_letters_def upper_letters_def digit_chars_def)
  have sp: "\<And>c. is_space c \<Longrightarrow> \<not> is_word c"
    using word_not_dot_space by blast
  have "\<exists>d. rest = d @ r1 \<and> (d = [] \<or> d = ''.'')"
  proof (cases rest)
    case Nil
    then show ?thesis by (simp add: r1_def opt_dot_def)
  next
    case (Cons a list)
    show ?thesis
    proof (cases "a = CHR ''.''")
      case True
      then have "rest = ''.'' @ r1" using Cons by (simp add: r1_def opt_dot_def)
      then show ?thesis by blast
    next
      case False
      then have "rest = [] @ r1" using Cons by (simp add: r1_def opt_dot_def)
      then show ?thesis by blast
    qed
  qed
  then obtain d where d: "rest = d @ r1" "d = [] \<or> d = ''.''"
    by blast
  define w where "w = takeWhile is_space r1"
  have w: "r1 = w @ dropWhile is_space r1" by (simp add: w_def)
  have wsp: "\<forall>c\<in>set w. is_space c"
    unfolding w_def by (auto dest: set_takeWhileD)
  have "rest = (d @ w) @ dropWhile is_space (opt_dot rest)"
    using d(1) w r1_def by (metis append.assoc)
  moreover have "d @ w \<noteq> [] \<longrightarrow> \<not> is_word (last (d @ w))"
  proof (cases "w = []")
    case True
    then show ?thesis using d(2) not_word_dot by auto
  next
    case False
    then have "last (d @ w) = last w" by simp
    moreover have "is_space (last w)" using False wsp by simp
    ultimately show ?thesis using sp by simp
  qed
  ultimately show ?thesis by blast
qed

lemma sub_titles_title_start:
  assumes "title_word t"
  shows "sub_titles False (t @ rest) = after_title rest"
proof -
  define r where "r = dropWhile is_space (opt_dot rest)"
  have fa: "first_alt titles (t @ rest) = Some rest" and tne: "t \<noteq> []" and lw: "is_word (last t)"
    using title_word_first_alt [OF assms] by auto
  have mt: "match_title (t @ rest) = Some r"
    by (simp add: match_title_def fa r_def)
  obtain v where v: "rest = v @ r" "v \<noteq> [] \<longrightarrow> \<not> is_word (last v)"
    using dot_space_split [of rest] r_def by blast
  have "t @ rest = (t @ v) @ r" using v by simp
  then have lc: "last_consumed (t @ rest) r = last (t @ v)"
    using last_consumed_append [of "t @ v" r] tne by simp
  have flag: "is_word (last (t @ v)) = (length r = length rest)"
  proof (cases "v = []")
    case True
    then show ?thesis using v lw by simp
  next
    case False
    then have "length r \<noteq> length rest" using v(1) by (metis append_eq_append_conv append_Nil)
    then show ?thesis using False v(2) by simp
  qed
  obtain c cs where cs: "t @ rest = c # cs"
    using tne by (cases t) auto
  have "sub_titles False (t @ rest) = sub_titles (is_word (last_consumed (t @ rest) r)) r"
    using mt unfolding cs by simp
  then show ?thesis
    by (simp add: after_title_def r_def [symmetric] lc flag Let_def)
qed

lemma re_sub_titles_every_title:
  assumes "title_word t" and "pre = [] \<or> \<not> is_word (last pre)"
  shows "re_sub_titles (pre @ t @ rest) = re_sub_titles pre @ after_title rest"
proof (cases "pre = []")
  case True
  then show ?thesis
    by (simp add: re_sub_titles_def sub_titles_title_start [OF assms(1)])
next
  case False
  have tne: "t \<noteq> []" and "first_alt titles (t @ []) = Some []"
    using title_word_first_alt [OF assms(1), of "[]"] by auto
  then have "is_word (hd t)"
    by (cases t) (auto simp: titles_def lower_letters_def split: if_splits option.splits
        intro!: lower_char_letter_word)
  then have "is_word (hd (t @ rest))" using tne by simp
  then have "sub_titles False (pre @ (t @ rest)) = sub_titles False pre @ sub_titles False (t @ rest)"
    using sub_titles_append [of pre "t @ rest" False] False assms(2) tne by simp
  then show ?thesis
    by (simp add: re_sub_titles_def sub_titles_title_start [OF assms(1)])
qed

section \<open>Text of a cell: \<^verbatim>\<open>astype(str)\<close>\<close>

text \<open>
  What pandas does with single values is taken as a parameter of the model: the text of a
  float and of a timestamp, and which cells \<^verbatim>\<open>pd.to_numeric\<close> and
  \<^verbatim>\<open>pd.to_datetime\<close> can read (\<open>None\<close>: the cell does not parse, and
  \<^verbatim>\<open>errors="coerce"\<close> makes it missing). Every theorem holds for every such library.
\<close>

datatype num = NInt int | NFloat real

record pandas =
  repr_float :: "real \<Rightarrow> string"
  repr_datetime :: "int \<Rightarrow> string"
  to_numeric_cell :: "cell \<Rightarrow> num option"
  to_datetime_cell :: "cell \<Rightarrow> int option"

text \<open>\<^verbatim>\<open>astype(str)\<close> calls \<^verbatim>\<open>str\<close> on every cell, the missing ones included.
  The text of an integer is its decimal digits, with a minus sign when it is negative.\<close>

fun str_nat :: "nat \<Rightarrow> string" where
  "str_nat n = (if n < 10 then [digit_chars ! n] else str_nat (n div 10) @ [digit_chars ! (n mod 10)])"

fun str_missing :: "missing \<Rightarrow> string" where
  "str_missing NaN = ''nan''"
| "str_missing PyNone = ''None''"
| "str_missing NaT = ''NaT''"
| "str_missing NA = ''<NA>''"

definition str_int :: "int \<Rightarrow> string" where
  "str_int i = (if i < 0 then CHR ''-'' # str_nat (nat (- i)) else str_nat (nat i))"

fun astype_str :: "pandas \<Rightarrow> cell \<Rightarrow> string" where
  "astype_str L (Missing k) = str_missing k"
| "astype_str L (IntV i) = str_int i"
| "astype_str L (FloatV r) = repr_float L r"
| "astype_str L (TextV s) = s"
| "astype_str L (BoolV b) = (if b then ''True'' else ''False'')"
| "astype_str L (DateV d) = repr_datetime L d"

text \<open>
  The column-wise operations: \<^verbatim>\<open>.astype(str)\<close> gives an object column of texts. The
  \<^verbatim>\<open>.str\<close> methods work on the text cells and give \<^verbatim>\<open>nan\<close> for any other cell.
  \<^verbatim>\<open>.fillna(v)\<close> puts \<open>v\<close> in place of every missing cell.
\<close>

definition astype_str_col :: "pandas \<Rightarrow> cell list \<Rightarrow> cell list" where
  "astype_str_col L xs = map (\<lambda>x. TextV (astype_str L x)) xs"

definition str_replace :: "(string \<Rightarrow> string) \<Rightarrow> cell list \<Rightarrow> cell list" where
  "str_replace f xs = map (\<lambda>x. case x of TextV s \<Rightarrow> TextV (f s) | _ \<Rightarrow> Missing NaN) xs"

definition str_fullmatch :: "(string \<Rightarrow> bool) \<Rightarrow> cell list \<Rightarrow> cell list" where
  "str_fullmatch P xs = map (\<lambda>x. case x of TextV s \<Rightarrow> BoolV (P s) | _ \<Rightarrow> Missing NaN) xs"

definition fillna :: "cell \<Rightarrow> cell list \<Rightarrow> cell list" where
  "fillna v xs = map (\<lambda>x. if is_missing x then v else x) xs"

text \<open>\<^verbatim>\<open>df[name_col] = df[name_col].astype(str).str.replace(pattern, "", regex=True)\<close>\<close>

definition remove_extra_titles :: "pandas \<Rightarrow> dataframe \<Rightarrow> string \<Rightarrow> error + dataframe" where
  "remove_extra_titles L df name_col =
     (case get_col df name_col of
        None \<Rightarrow> Inl KeyError
      | Some c \<Rightarrow>
          Inr (set_col df name_col Object
                 (str_replace re_sub_titles (astype_str_col L (cells c)))))"

section \<open>Reading and writing a column\<close>

lemma get_col_name: "get_col df col = Some c \<Longrightarrow> name c = col \<and> c \<in> set df"
  by (auto simp: get_col_def find_Some_iff)

lemma get_col_None: "(get_col df col = None) = (col \<notin> set (map name df))"
  by (auto simp: get_col_def find_None_iff)

lemma find_map_update:
  "find (\<lambda>c. name c = col) df = Some c \<Longrightarrow>
   find (\<lambda>c. name c = col) (map (\<lambda>c. if name c = col then c\<lparr>dtype := d, cells := xs\<rparr> else c) df)
     = Some (c\<lparr>dtype := d, cells := xs\<rparr>)"
  by (induction df) (auto split: if_splits)

lemma find_map_update_other:
  "col' \<noteq> col \<Longrightarrow>
   find (\<lambda>c. name c = col') (map (\<lambda>c. if name c = col then c\<lparr>dtype := d, cells := xs\<rparr> else c) df)
     = find (\<lambda>c. name c = col') df"
  by (induction df) auto

lemma get_col_set_col_same:
  "get_col df col = Some c \<Longrightarrow> get_col (set_col df col d xs) col = Some (c\<lparr>dtype := d, cells := xs\<rparr>)"
proof -
  assume a: "get_col df col = Some c"
  then have "col \<in> set (map name df)"
    using get_col_None [of df col] by auto
  then show ?thesis
    using a by (simp add: set_col_def get_col_def find_map_update)
qed

lemma find_append_new:
  "find P df = None \<Longrightarrow> P x \<Longrightarrow> find P (df @ [x]) = Some x"
  by (induction df) (auto split: if_splits)

lemma get_col_set_col_new:
  "get_col df col = None \<Longrightarrow>
   get_col (set_col df col d xs) col = Some \<lparr>name = col, dtype = d, cells = xs\<rparr>"
proof -
  assume a: "get_col df col = None"
  then have "col \<notin> set (map name df)"
    using get_col_None by blast
  then show ?thesis
    using a find_append_new [of "\<lambda>c. name c = col" df "\<lparr>name = col, dtype = d, cells = xs\<rparr>"]
    by (simp add: set_col_def get_col_def)
qed

lemma find_append_other: "\<not> P x \<Longrightarrow> find P (df @ [x]) = find P df"
  by (induction df) auto

lemma get_col_set_col_other:
  "col' \<noteq> col \<Longrightarrow> get_col (set_col df col d xs) col' = get_col df col'"
  by (simp add: set_col_def get_col_def find_map_update_other find_append_other)

lemma names_set_col:
  "map name (set_col df col d xs) = (if col \<in> set (map name df) then map name df else map name df @ [col])"
  by (induction df) (auto simp: set_col_def)

text \<open>
  C1, as amended. For every dataset and name column, the Title Stripper removes every
  honorific of Mr, Dr, Ms and Shri (in any mix of cases, with the period and the whitespace
  that may follow it) that stands as a word of its own, wherever in the cell it stands, not
  only a leading one: a cell whose text is \<open>pre @ t @ rest\<close>, with \<open>t\<close> such a title after
  a word boundary, becomes what is left of \<open>pre\<close> followed by what is left of \<open>rest\<close>
  behind the title.
\<close>

theorem remove_extra_titles_strips_every_title:
  assumes "distinct (map name df)"
    and "get_col df name_col = Some c"
    and "i < length (cells c)"
    and "astype_str L (cells c ! i) = pre @ t @ rest"
    and "title_word t"
    and "pre = [] \<or> \<not> is_word (last pre)"
    and "rest = [] \<or> \<not> is_word (hd rest)"
  shows "\<exists>df' c'. remove_extra_titles L df name_col = Inr df'
           \<and> map name df' = map name df
           \<and> get_col df' name_col = Some c'
           \<and> length (cells c') = length (cells c)
           \<and> cells c' ! i = TextV (re_sub_titles pre @ after_title rest)"
proof -
  let ?xs = "str_replace re_sub_titles (astype_str_col L (cells c))"
  have r: "remove_extra_titles L df name_col = Inr (set_col df name_col Object ?xs)"
    using assms(2) by (simp add: remove_extra_titles_def)
  have g: "get_col (set_col df name_col Object ?xs) name_col = Some (c\<lparr>dtype := Object, cells := ?xs\<rparr>)"
    using assms(2) by (rule get_col_set_col_same)
  have n: "map name (set_col df name_col Object ?xs) = map name df"
    using assms(2) get_col_None [of df name_col] by (simp add: names_set_col)
  have len: "length ?xs = length (cells c)"
    by (simp add: str_replace_def astype_str_col_def)
  have "?xs ! i = TextV (re_sub_titles (pre @ t @ rest))"
    using assms(3,4) by (simp add: str_replace_def astype_str_col_def)
  then have v: "?xs ! i = TextV (re_sub_titles pre @ after_title rest)"
    using re_sub_titles_every_title [OF assms(5,6)] by simp
  show ?thesis
    using r g n v len by simp
qed

text \<open>The theorem at the cell \<^verbatim>\<open>"Jane Dr. Smith"\<close>, which becomes \<^verbatim>\<open>"Jane Smith"\<close>.\<close>

theorem remove_extra_titles_strips_every_title_witness:
  "\<forall>L. \<exists>df' c'.
      remove_extra_titles L [\<lparr>name = ''name'', dtype = Object, cells = [TextV ''Jane Dr. Smith'']\<rparr>] ''name''
        = Inr df'
      \<and> get_col df' ''name'' = Some c'
      \<and> cells c' ! 0 = TextV ''Jane Smith''"
proof
  fix L
  let ?c = "\<lparr>name = ''name'', dtype = Object, cells = [TextV ''Jane Dr. Smith'']\<rparr>"
  have a: "title_word ''Dr''"
    by (simp add: title_word_def py_lower_def lower_char_def upper_letters_def lower_letters_def)
  have b: "\<not> is_word (last ''Jane '')"
    by (simp add: is_word_def ident_char_def upper_letters_def lower_letters_def digit_chars_def)
  have c: "\<not> is_word (hd ''. Smith'')"
    by (simp add: is_word_def ident_char_def upper_letters_def lower_letters_def digit_chars_def)
  have d: "re_sub_titles ''Jane '' @ after_title ''. Smith'' = ''Jane Smith''"
    by code_simp
  have "\<exists>df' c'. remove_extra_titles L [?c] ''name'' = Inr df'
           \<and> map name df' = map name [?c]
           \<and> get_col df' ''name'' = Some c'
           \<and> length (cells c') = length (cells ?c)
           \<and> cells c' ! 0 = TextV (re_sub_titles ''Jane '' @ after_title ''. Smith'')"
    using remove_extra_titles_strips_every_title [of "[?c]" "''name''" ?c 0 L "''Jane ''" "''Dr''" "''. Smith''"]
      a b c by (simp add: get_col_def)
  then show "\<exists>df' c'. remove_extra_titles L [?c] ''name'' = Inr df'
      \<and> get_col df' ''name'' = Some c' \<and> cells c' ! 0 = TextV ''Jane Smith''"
    using d by auto
qed

text \<open>C1 as stated fails: the cell \<^verbatim>\<open>"Jane Dr. Smith"\<close> is not returned unchanged.\<close>

theorem remove_extra_titles_mid_string_counterexample:
  "\<forall>L. remove_extra_titles L [\<lparr>name = ''name'', dtype = Object, cells = [TextV ''Jane Dr. Smith'']\<rparr>] ''name''
     = Inr [\<lparr>name = ''name'', dtype = Object, cells = [TextV ''Jane Smith'']\<rparr>]"
proof
  fix L
  have "re_sub_titles ''Jane Dr. Smith'' = ''Jane Smith''"
    by code_simp
  then show "remove_extra_titles L [\<lparr>name = ''name'', dtype = Object, cells = [TextV ''Jane Dr. Smith'']\<rparr>] ''name''
     = Inr [\<lparr>name = ''name'', dtype = Object, cells = [TextV ''Jane Smith'']\<rparr>]"
    by (simp add: remove_extra_titles_def get_col_def set_col_def str_replace_def astype_str_col_def)
qed

section \<open>Phone validator: \<^verbatim>\<open>validate_phone_numbers\<close>\<close>

text \<open>
  The pattern is \<^verbatim>\<open>^(\+91[-\s]?)?[6-9]\d{9}$\<close>, matched with \<^verbatim>\<open>fullmatch\<close>: the whole
  text has to be taken. \<open>local_number\<close> is \<^verbatim>\<open>[6-9]\d{9}\<close> up to the end of the text,
  \<open>strip_literal\<close> takes a literal off the front, and \<open>phone_fullmatch\<close> tries the
  optional group with its separator, the group without it, and no group.
\<close>

definition local_number :: "string \<Rightarrow> bool" where
  "local_number s =
     (case s of [] \<Rightarrow> False
      | c # ds \<Rightarrow> c \<in> set ''6789'' \<and> length ds = 9 \<and> list_all is_digit ds)"

fun strip_literal :: "string \<Rightarrow> string \<Rightarrow> string option" where
  "strip_literal [] s = Some s"
| "strip_literal (p # ps) [] = None"
| "strip_literal (p # ps) (c # cs) = (if c = p then strip_literal ps cs else None)"

definition phone_fullmatch :: "string \<Rightarrow> bool" where
  "phone_fullmatch s =
     ((case strip_literal ''+91'' s of
         None \<Rightarrow> False
       | Some r \<Rightarrow>
           (case r of [] \<Rightarrow> False
            | c # r' \<Rightarrow> (c = CHR ''-'' \<or> is_space c) \<and> local_number r')
           \<or> local_number r)
      \<or> local_number s)"

text \<open>\<^verbatim>\<open>df["valid_phone"] = df[phone_col].astype(str).str.fullmatch(pattern).fillna(False)\<close>\<close>

definition validate_phone_numbers :: "pandas \<Rightarrow> dataframe \<Rightarrow> string \<Rightarrow> error + dataframe" where
  "validate_phone_numbers L df phone_col =
     (case get_col df phone_col of
        None \<Rightarrow> Inl KeyError
      | Some c \<Rightarrow>
          Inr (set_col df ''valid_phone'' Boolean
                 (fillna (BoolV False) (str_fullmatch phone_fullmatch (astype_str_col L (cells c))))))"

text \<open>
  The validity of a phone number in the words of the specification: an optional
  \<^verbatim>\<open>+91\<close> country code, with an optional separator (a hyphen or a whitespace
  character), followed by exactly ten digits whose first digit is 6 to 9.
\<close>

definition ten_digits :: "string \<Rightarrow> bool" where
  "ten_digits ds = (length ds = 10 \<and> list_all is_digit ds \<and> hd ds \<in> set ''6789'')"

definition country_code :: "string \<Rightarrow> bool" where
  "country_code cc =
     (cc = [] \<or> cc = ''+91'' \<or> (\<exists>sep. cc = ''+91'' @ [sep] \<and> (sep = CHR ''-'' \<or> is_space sep)))"

definition spec_valid_phone :: "string \<Rightarrow> bool" where
  "spec_valid_phone s = (\<exists>cc ds. s = cc @ ds \<and> country_code cc \<and> ten_digits ds)"

section \<open>The phone validator decides the specified format\<close>

lemma strip_literal_iff: "(strip_literal p s = Some r) = (s = p @ r)"
  by (induction p s rule: strip_literal.induct) auto

lemma local_number_iff: "local_number s = ten_digits s"
  by (cases s) (auto simp: local_number_def ten_digits_def is_digit_def digit_chars_def)

lemma ten_digits_first: "ten_digits ds \<Longrightarrow> ds \<noteq> [] \<and> hd ds \<noteq> CHR ''+'' \<and> hd ds \<noteq> CHR ''-'' \<and> \<not> is_space (hd ds)"
  by (cases ds) (auto simp: ten_digits_def is_space_def space_chars_def)

lemma phone_fullmatch_spec: "phone_fullmatch s = spec_valid_phone s"
proof
  assume "phone_fullmatch s"
  then consider (a) "local_number s"
    | (b) r where "s = ''+91'' @ r" "local_number r"
    | (c) sep r where "s = ''+91'' @ sep # r" "sep = CHR ''-'' \<or> is_space sep" "local_number r"
    by (auto simp: phone_fullmatch_def strip_literal_iff split: option.splits list.splits)
  then show "spec_valid_phone s"
  proof cases
    case a
    then have "s = [] @ s \<and> country_code [] \<and> ten_digits s"
      by (simp add: local_number_iff country_code_def)
    then show ?thesis unfolding spec_valid_phone_def by blast
  next
    case b
    then have "s = ''+91'' @ r \<and> country_code ''+91'' \<and> ten_digits r"
      by (simp add: local_number_iff country_code_def)
    then show ?thesis unfolding spec_valid_phone_def by blast
  next
    case c
    then have "s = (''+91'' @ [sep]) @ r \<and> country_code (''+91'' @ [sep]) \<and> ten_digits r"
      by (auto simp: local_number_iff country_code_def)
    then show ?thesis unfolding spec_valid_phone_def by blast
  qed
next
  assume "spec_valid_phone s"
  then obtain cc ds where s: "s = cc @ ds" and cc: "country_code cc" and ds: "ten_digits ds"
    unfolding spec_valid_phone_def by blast
  consider "cc = []" | "cc = ''+91''" | sep where "cc = ''+91'' @ [sep]" "sep = CHR ''-'' \<or> is_space sep"
    using cc unfolding country_code_def by blast
  then show "phone_fullmatch s"
  proof cases
    case 1
    then show ?thesis using s ds by (simp add: phone_fullmatch_def local_number_iff)
  next
    case 2
    then have "strip_literal ''+91'' s = Some ds" using s by (simp add: strip_literal_iff)
    then show ?thesis using ds by (simp add: phone_fullmatch_def local_number_iff)
  next
    case 3
    then have "strip_literal ''+91'' s = Some (sep # ds)" using s by (simp add: strip_literal_iff)
    then show ?thesis using ds 3(2) by (simp add: phone_fullmatch_def local_number_iff)
  qed
qed

lemma phone_examples:
  "phone_fullmatch ''+91-9876543210''" "\<not> phone_fullmatch ''5876543210''" "\<not> phone_fullmatch []"
  "phone_fullmatch ''9876543210''" "phone_fullmatch ''+91 9876543210''" "\<not> phone_fullmatch ''+91--9876543210''"
  by code_simp+

lemma phone_missing: "\<not> phone_fullmatch (str_missing k)"
  by (cases k) (simp_all add: phone_fullmatch_def local_number_def)

lemma phone_flags_cells:
  "fillna (BoolV False) (str_fullmatch P (astype_str_col L xs)) = map (\<lambda>x. BoolV (P (astype_str L x))) xs"
  by (simp add: fillna_def str_fullmatch_def astype_str_col_def)

text \<open>
  C5. For every dataset and phone column, the phone validator writes a boolean column
  named \<^verbatim>\<open>valid_phone\<close> whose cell is true exactly when the text of the phone cell has
  the specified format. The text \<^verbatim>\<open>+91-9876543210\<close> is valid, \<^verbatim>\<open>5876543210\<close> and
  the empty text are not, and no missing cell is; the validator returns a frame, not an
  error.
\<close>

theorem validate_phone_numbers_flags:
  assumes "distinct (map name df)" and "get_col df phone_col = Some c"
  shows "\<exists>df' v. validate_phone_numbers L df phone_col = Inr df'
           \<and> get_col df' ''valid_phone'' = Some v
           \<and> dtype v = Boolean
           \<and> cells v = map (\<lambda>x. BoolV (spec_valid_phone (astype_str L x))) (cells c)
           \<and> spec_valid_phone ''+91-9876543210''
           \<and> \<not> spec_valid_phone ''5876543210''
           \<and> \<not> spec_valid_phone []
           \<and> (\<forall>k. \<not> spec_valid_phone (astype_str L (Missing k)))"
proof -
  let ?xs = "fillna (BoolV False) (str_fullmatch phone_fullmatch (astype_str_col L (cells c)))"
  let ?df' = "set_col df ''valid_phone'' Boolean ?xs"
  have r: "validate_phone_numbers L df phone_col = Inr ?df'"
    using assms(2) by (simp add: validate_phone_numbers_def)
  have xs: "?xs = map (\<lambda>x. BoolV (spec_valid_phone (astype_str L x))) (cells c)"
    by (simp add: phone_flags_cells phone_fullmatch_spec)
  have "\<exists>v. get_col ?df' ''valid_phone'' = Some v \<and> dtype v = Boolean \<and> cells v = ?xs"
  proof (cases "get_col df ''valid_phone''")
    case None
    then show ?thesis by (simp add: get_col_set_col_new)
  next
    case (Some c0)
    then show ?thesis by (simp add: get_col_set_col_same)
  qed
  moreover have "spec_valid_phone ''+91-9876543210''" "\<not> spec_valid_phone ''5876543210''"
      "\<not> spec_valid_phone []"
    using phone_examples by (simp_all add: phone_fullmatch_spec)
  moreover have "\<forall>k. \<not> spec_valid_phone (astype_str L (Missing k))"
    using phone_missing by (simp add: phone_fullmatch_spec)
  ultimately show ?thesis
    using r xs by auto
qed

text \<open>The theorem on a frame with a valid, a malformed, an empty, a missing and an integer
  phone cell.\<close>

definition contacts :: dataframe where
  "contacts =
     [\<lparr>name = ''id'', dtype = Int64, cells = [IntV 1, IntV 2, IntV 3, IntV 4, IntV 5]\<rparr>,
      \<lparr>name = ''phone'', dtype = Object,
       cells = [TextV ''+91-9876543210'', TextV ''5876543210'', TextV [], Missing PyNone,
                IntV 9876543210]\<rparr>]"

theorem validate_phone_numbers_flags_witness:
  "\<forall>L. \<exists>df' v. validate_phone_numbers L contacts ''phone'' = Inr df'
      \<and> get_col df' ''valid_phone'' = Some v
      \<and> cells v = [BoolV True, BoolV False, BoolV False, BoolV False, BoolV True]"
proof
  fix L
  let ?c = "\<lparr>name = ''phone'', dtype = Object,
       cells = [TextV ''+91-9876543210'', TextV ''5876543210'', TextV [], Missing PyNone,
                IntV 9876543210]\<rparr>"
  have d: "distinct (map name contacts)" and g: "get_col contacts ''phone'' = Some ?c"
    by (simp_all add: contacts_def get_col_def)
  have i: "str_int 9876543210 = ''9876543210''"
    by (simp add: str_int_def digit_chars_def)
  have e: "map (\<lambda>x. BoolV (spec_valid_phone (astype_str L x))) (cells ?c)
             = [BoolV True, BoolV False, BoolV False, BoolV False, BoolV True]"
    using phone_examples phone_missing [of PyNone]
    by (simp add: phone_fullmatch_spec [symmetric] i)
  show "\<exists>df' v. validate_phone_numbers L contacts ''phone'' = Inr df'
      \<and> get_col df' ''valid_phone'' = Some v
      \<and> cells v = [BoolV True, BoolV False, BoolV False, BoolV False, BoolV True]"
    using validate_phone_numbers_flags [OF d g, of L] e by auto
qed

section \<open>Type Converter: \<^verbatim>\<open>convert_column_types\<close>\<close>

text \<open>
  \<^verbatim>\<open>pd.to_numeric(series, errors="coerce")\<close> reads every cell as a number, or as
  \<^verbatim>\<open>nan\<close> when the library cannot read it. The result is an \<^verbatim>\<open>int64\<close> column when
  every cell was read as an integer and a \<^verbatim>\<open>float64\<close> column otherwise.
\<close>

definition all_int :: "num option list \<Rightarrow> bool" where
  "all_int ns = list_all (\<lambda>n. case n of Some (NInt i) \<Rightarrow> True | _ \<Rightarrow> False) ns"

fun int_cell :: "num option \<Rightarrow> cell" where
  "int_cell (Some (NInt i)) = IntV i"
| "int_cell (Some (NFloat r)) = FloatV r"
| "int_cell None = Missing NaN"

fun float_cell :: "num option \<Rightarrow> cell" where
  "float_cell (Some (NInt i)) = FloatV (of_int i)"
| "float_cell (Some (NFloat r)) = FloatV r"
| "float_cell None = Missing NaN"

definition to_numeric :: "pandas \<Rightarrow> cell list \<Rightarrow> dtype \<times> cell list" where
  "to_numeric L xs =
     (let ns = map (to_numeric_cell L) xs
      in if all_int ns then (Int64, map int_cell ns) else (Float64, map float_cell ns))"

text \<open>
  \<^verbatim>\<open>.astype("Int64")\<close> takes an integer as it is, a float that is a whole number as that
  integer and a missing cell as \<^verbatim>\<open>pd.NA\<close>. On a float with a fraction it raises
  \<^verbatim>\<open>TypeError\<close> (cannot safely cast), for the whole column.
\<close>

fun int64_cell :: "cell \<Rightarrow> error + cell" where
  "int64_cell (IntV i) = Inr (IntV i)"
| "int64_cell (FloatV r) = (if r = of_int \<lfloor>r\<rfloor> then Inr (IntV \<lfloor>r\<rfloor>) else Inl TypeError)"
| "int64_cell (Missing k) = Inr (Missing NA)"
| "int64_cell x = Inl TypeError"

fun astype_Int64 :: "cell list \<Rightarrow> error + cell list" where
  "astype_Int64 [] = Inr []"
| "astype_Int64 (x # xs) =
     (case int64_cell x of
        Inl e \<Rightarrow> Inl e
      | Inr y \<Rightarrow> (case astype_Int64 xs of Inl e \<Rightarrow> Inl e | Inr ys \<Rightarrow> Inr (y # ys)))"

text \<open>\<^verbatim>\<open>pd.to_datetime(series, errors="coerce")\<close>: a cell that does not parse becomes
  \<^verbatim>\<open>NaT\<close>.\<close>

definition to_datetime :: "pandas \<Rightarrow> cell list \<Rightarrow> cell list" where
  "to_datetime L xs =
     map (\<lambda>x. case to_datetime_cell L x of None \<Rightarrow> Missing NaT | Some d \<Rightarrow> DateV d) xs"

text \<open>The right-hand sides of the four branches, each from the cells of the column to the
  new dtype and cells, or to the exception raised.\<close>

definition as_int :: "pandas \<Rightarrow> cell list \<Rightarrow> error + dtype \<times> cell list" where
  "as_int L xs =
     (case astype_Int64 (snd (to_numeric L xs)) of
        Inl e \<Rightarrow> Inl e
      | Inr ys \<Rightarrow> Inr (NullableInt64, ys))"

definition as_float :: "pandas \<Rightarrow> cell list \<Rightarrow> error + dtype \<times> cell list" where
  "as_float L xs = Inr (to_numeric L xs)"

definition as_str :: "pandas \<Rightarrow> cell list \<Rightarrow> error + dtype \<times> cell list" where
  "as_str L xs = Inr (Object, astype_str_col L xs)"

definition as_datetime :: "pandas \<Rightarrow> cell list \<Rightarrow> error + dtype \<times> cell list" where
  "as_datetime L xs = Inr (Datetime64, to_datetime L xs)"

text \<open>\<^verbatim>\<open>df[col] = f(df[col])\<close>: reading a column that is not there raises
  \<^verbatim>\<open>KeyError\<close>, and when \<open>f\<close> raises nothing is assigned.\<close>

definition assign ::
  "dataframe \<Rightarrow> string \<Rightarrow> (cell list \<Rightarrow> error + dtype \<times> cell list) \<Rightarrow> error + dataframe" where
  "assign df col f =
     (case get_col df col of
        None \<Rightarrow> Inl KeyError
      | Some c \<Rightarrow>
          (case f (cells c) of
             Inl e \<Rightarrow> Inl e
           | Inr (d, ys) \<Rightarrow> Inr (set_col df col d ys)))"

text \<open>The body of the \<^verbatim>\<open>try\<close> block: the chain of \<^verbatim>\<open>if dtype == ...\<close>. Any other
  target type does nothing.\<close>

definition convert_one :: "pandas \<Rightarrow> dataframe \<Rightarrow> string \<Rightarrow> string \<Rightarrow> error + dataframe" where
  "convert_one L df col ty =
     (if ty = ''int'' then assign df col (as_int L)
      else if ty = ''float'' then assign df col (as_float L)
      else if ty = ''str'' then assign df col (as_str L)
      else if ty = ''datetime'' then assign df col (as_datetime L)
      else Inr df)"

text \<open>
  The loop over \<^verbatim>\<open>conversions.items()\<close>, in the order of the dictionary. An exception
  raised by an entry is caught, its message is printed (the second component collects what
  is printed) and the loop goes on with the frame as it was before the entry. The function
  has no other way out: it always returns the frame.
\<close>

fun convert_column_types ::
  "pandas \<Rightarrow> dataframe \<Rightarrow> (string \<times> string) list \<Rightarrow> dataframe \<times> (string \<times> string \<times> error) list" where
  "convert_column_types L df [] = (df, [])"
| "convert_column_types L df ((col, ty) # conversions) =
     (case convert_one L df col ty of
        Inl e \<Rightarrow>
          (let (df', printed) = convert_column_types L df conversions
           in (df', (col, ty, e) # printed))
      | Inr df' \<Rightarrow> convert_column_types L df' conversions)"

section \<open>Each column is converted on its own\<close>

text \<open>The frame after a \<^verbatim>\<open>try\<close> block, and the column after its own entry.\<close>

definition kept :: "dataframe \<Rightarrow> error + dataframe \<Rightarrow> dataframe" where
  "kept df r = (case r of Inl e \<Rightarrow> df | Inr df' \<Rightarrow> df')"

definition updated :: "column \<Rightarrow> error + dtype \<times> cell list \<Rightarrow> column" where
  "updated c r = (case r of Inl e \<Rightarrow> c | Inr (d, ys) \<Rightarrow> c\<lparr>dtype := d, cells := ys\<rparr>)"

definition column_after :: "pandas \<Rightarrow> string \<Rightarrow> column \<Rightarrow> column" where
  "column_after L ty c =
     (if ty = ''int'' then updated c (as_int L (cells c))
      else if ty = ''float'' then updated c (as_float L (cells c))
      else if ty = ''str'' then updated c (as_str L (cells c))
      else if ty = ''datetime'' then updated c (as_datetime L (cells c))
      else c)"

lemma assign_other: "col' \<noteq> col \<Longrightarrow> get_col (kept df (assign df col' f)) col = get_col df col"
proof (cases "get_col df col'")
  case None
  then show ?thesis by (simp add: assign_def kept_def)
next
  case (Some c')
  assume ne: "col' \<noteq> col"
  show ?thesis
  proof (cases "f (cells c')")
    case (Inl e)
    then show ?thesis using Some by (simp add: assign_def kept_def)
  next
    case (Inr p)
    then show ?thesis using Some ne
      by (cases p) (simp add: assign_def kept_def get_col_set_col_other)
  qed
qed

lemma assign_same:
  assumes "get_col df col = Some c"
  shows "get_col (kept df (assign df col f)) col = Some (updated c (f (cells c)))"
proof (cases "f (cells c)")
  case (Inl e)
  then show ?thesis using assms by (simp add: assign_def kept_def updated_def)
next
  case (Inr p)
  then show ?thesis using assms
    by (cases p) (simp add: assign_def kept_def updated_def get_col_set_col_same)
qed

lemma convert_one_other:
  "col' \<noteq> col \<Longrightarrow> get_col (kept df (convert_one L df col' ty)) col = get_col df col"
  by (simp add: convert_one_def assign_other) (simp add: kept_def)

lemma convert_one_same:
  "get_col df col = Some c \<Longrightarrow>
   get_col (kept df (convert_one L df col ty)) col = Some (column_after L ty c)"
  by (simp add: convert_one_def column_after_def assign_same) (simp add: kept_def)

lemma convert_column_types_step:
  "fst (convert_column_types L df ((col, ty) # conversions))
     = fst (convert_column_types L (kept df (convert_one L df col ty)) conversions)"
  by (cases "convert_one L df col ty") (simp_all add: kept_def split: prod.splits)

lemma convert_column_types_untouched:
  "col \<notin> set (map fst conversions) \<Longrightarrow>
   get_col (fst (convert_column_types L df conversions)) col = get_col df col"
proof (induction conversions arbitrary: df)
  case Nil
  then show ?case by simp
next
  case (Cons a conversions)
  obtain col' ty where a: "a = (col', ty)" by (cases a)
  have ne: "col' \<noteq> col" using Cons.prems a by auto
  have "col \<notin> set (map fst conversions)" using Cons.prems by simp
  then show ?case
    unfolding a convert_column_types_step
    using Cons.IH [of "kept df (convert_one L df col' ty)"] convert_one_other [OF ne, of df L ty]
    by simp
qed

lemma convert_column_types_column:
  "distinct (map fst conversions) \<Longrightarrow> (col, ty) \<in> set conversions \<Longrightarrow> get_col df col = Some c \<Longrightarrow>
   get_col (fst (convert_column_types L df conversions)) col = Some (column_after L ty c)"
proof (induction conversions arbitrary: df)
  case Nil
  then show ?case by simp
next
  case (Cons a conversions)
  obtain col' ty' where a: "a = (col', ty')" by (cases a)
  let ?df1 = "kept df (convert_one L df col' ty')"
  show ?case
  proof (cases "a = (col, ty)")
    case True
    then have "col \<notin> set (map fst conversions)" using Cons.prems(1) by auto
    then have "get_col (fst (convert_column_types L ?df1 conversions)) col = get_col ?df1 col"
      by (rule convert_column_types_untouched)
    moreover have "get_col ?df1 col = Some (column_after L ty c)"
      using convert_one_same [OF Cons.prems(3), of L ty] True a by simp
    ultimately show ?thesis
      unfolding a convert_column_types_step by simp
  next
    case False
    then have mem: "(col, ty) \<in> set conversions" using Cons.prems(2) by auto
    then have "col \<in> set (map fst conversions)" by force
    then have ne: "col' \<noteq> col" using Cons.prems(1) a by auto
    have "get_col ?df1 col = Some c"
      using convert_one_other [OF ne, of df L ty'] Cons.prems(3) by simp
    then show ?thesis
      unfolding a convert_column_types_step
      using Cons.IH [of ?df1] Cons.prems(1) mem by simp
  qed
qed

text \<open>The parsed value is a whole number (or the cell did not parse).\<close>

definition num_whole :: "num option \<Rightarrow> bool" where
  "num_whole n = (case n of Some (NFloat r) \<Rightarrow> r = of_int \<lfloor>r\<rfloor> | _ \<Rightarrow> True)"

definition whole_numbers :: "pandas \<Rightarrow> cell list \<Rightarrow> bool" where
  "whole_numbers L xs = list_all (\<lambda>x. num_whole (to_numeric_cell L x)) xs"

fun int_of_num :: "num option \<Rightarrow> cell" where
  "int_of_num None = Missing NA"
| "int_of_num (Some (NInt i)) = IntV i"
| "int_of_num (Some (NFloat r)) = IntV \<lfloor>r\<rfloor>"

lemma int64_cell_int_cell:
  "int64_cell (int_cell n) = (if num_whole n then Inr (int_of_num n) else Inl TypeError)"
  by (cases n rule: int_of_num.cases) (simp_all add: num_whole_def)

lemma int64_cell_float_cell:
  "int64_cell (float_cell n) = (if num_whole n then Inr (int_of_num n) else Inl TypeError)"
  by (cases n rule: int_of_num.cases) (simp_all add: num_whole_def)

lemma astype_Int64_cells:
  assumes "\<And>n. int64_cell (g n) = (if W n then Inr (h n) else Inl TypeError)"
  shows "astype_Int64 (map g ns) = (if list_all W ns then Inr (map h ns) else Inl TypeError)"
  by (induction ns) (simp_all add: assms)

lemma as_int_cases:
  "as_int L xs =
     (if whole_numbers L xs then Inr (NullableInt64, map (\<lambda>x. int_of_num (to_numeric_cell L x)) xs)
      else Inl TypeError)"
proof -
  let ?ns = "map (to_numeric_cell L) xs"
  have w: "list_all num_whole ?ns = whole_numbers L xs"
    by (simp add: whole_numbers_def list_all_iff)
  have m: "map int_of_num ?ns = map (\<lambda>x. int_of_num (to_numeric_cell L x)) xs"
    by simp
  have "astype_Int64 (snd (to_numeric L xs))
         = (if list_all num_whole ?ns then Inr (map int_of_num ?ns) else Inl TypeError)"
  proof (cases "all_int ?ns")
    case True
    then have "snd (to_numeric L xs) = map int_cell ?ns" by (simp add: to_numeric_def)
    then show ?thesis
      using astype_Int64_cells [of int_cell num_whole int_of_num ?ns] int64_cell_int_cell by simp
  next
    case False
    then have "snd (to_numeric L xs) = map float_cell ?ns" by (simp add: to_numeric_def)
    then show ?thesis
      using astype_Int64_cells [of float_cell num_whole int_of_num ?ns] int64_cell_float_cell by simp
  qed
  then show ?thesis
    unfolding as_int_def w m by simp
qed

lemma to_numeric_unparseable:
  assumes "i < length xs" and "to_numeric_cell L (xs ! i) = None"
  shows "snd (to_numeric L xs) ! i = Missing NaN"
proof -
  have "\<not> all_int (map (to_numeric_cell L) xs)"
    using assms by (auto simp: all_int_def list_all_length)
  then show ?thesis using assms by (simp add: to_numeric_def)
qed

lemma to_numeric_length: "length (snd (to_numeric L xs)) = length xs"
  by (simp add: to_numeric_def Let_def)

text \<open>
  C4, as amended. The Type Converter never raises: it returns the frame for every mapping.
  Every column of the mapping is converted on its own, whatever happens to the other
  entries. For the target \<^verbatim>\<open>float\<close> and the target \<^verbatim>\<open>datetime\<close> every cell that fails
  to parse becomes missing. For the target \<^verbatim>\<open>int\<close> the column is converted, with every
  cell that fails to parse missing, when every parsed value is a whole number; when a
  parsed value has a fraction the column is left as it was.
\<close>

theorem convert_column_types_isolated:
  assumes "distinct (map name df)"
    and "distinct (map fst conversions)"
    and "(col, ty) \<in> set conversions"
    and "get_col df col = Some c"
  shows "\<exists>c'. get_col (fst (convert_column_types L df conversions)) col = Some c'
     \<and> (ty = ''float'' \<longrightarrow>
          cells c' = snd (to_numeric L (cells c))
          \<and> length (cells c') = length (cells c)
          \<and> (\<forall>i<length (cells c). to_numeric_cell L (cells c ! i) = None \<longrightarrow> cells c' ! i = Missing NaN))
     \<and> (ty = ''datetime'' \<longrightarrow>
          cells c' = map (\<lambda>x. case to_datetime_cell L x of None \<Rightarrow> Missing NaT | Some d \<Rightarrow> DateV d) (cells c))
     \<and> (ty = ''int'' \<and> whole_numbers L (cells c) \<longrightarrow>
          dtype c' = NullableInt64
          \<and> cells c' = map (\<lambda>x. int_of_num (to_numeric_cell L x)) (cells c))
     \<and> (ty = ''int'' \<and> \<not> whole_numbers L (cells c) \<longrightarrow> c' = c)"
proof -
  have g: "get_col (fst (convert_column_types L df conversions)) col = Some (column_after L ty c)"
    using assms(2,3,4) by (rule convert_column_types_column)
  have f: "ty = ''float'' \<Longrightarrow> cells (column_after L ty c) = snd (to_numeric L (cells c))"
    by (cases "to_numeric L (cells c)") (simp add: column_after_def updated_def as_float_def)
  have d: "ty = ''datetime'' \<Longrightarrow> cells (column_after L ty c) = to_datetime L (cells c)"
    by (simp add: column_after_def updated_def as_datetime_def)
  have i1: "ty = ''int'' \<Longrightarrow> whole_numbers L (cells c) \<Longrightarrow>
      column_after L ty c = c\<lparr>dtype := NullableInt64, cells := map (\<lambda>x. int_of_num (to_numeric_cell L x)) (cells c)\<rparr>"
    by (simp add: column_after_def updated_def as_int_cases)
  have i2: "ty = ''int'' \<Longrightarrow> \<not> whole_numbers L (cells c) \<Longrightarrow> column_after L ty c = c"
    by (simp add: column_after_def updated_def as_int_cases)
  show ?thesis
    using g f d i1 i2 to_numeric_unparseable [of _ "cells c" L] to_numeric_length [of L "cells c"]
    by (auto simp: to_datetime_def)
qed

text \<open>
  A library to run the model on examples: it reads the four texts listed as pandas does
  and no other text, and it reads numbers as themselves.
\<close>

definition sample_pandas :: pandas where
  "sample_pandas =
     \<lparr>repr_float = (\<lambda>r. []),
      repr_datetime = (\<lambda>d. []),
      to_numeric_cell =
        (\<lambda>x. case x of
           TextV s \<Rightarrow> map_of [(''1'', NInt 1), (''3'', NInt 3), (''1.5'', NFloat (3 / 2)),
                              (''2.5'', NFloat (5 / 2))] s
         | IntV i \<Rightarrow> Some (NInt i)
         | FloatV r \<Rightarrow> Some (NFloat r)
         | _ \<Rightarrow> None),
      to_datetime_cell = (\<lambda>x. None)\<rparr>"

definition survey :: dataframe where
  "survey =
     [\<lparr>name = ''a'', dtype = Object, cells = [TextV ''1'', TextV ''x'', TextV ''3'']\<rparr>,
      \<lparr>name = ''b'', dtype = Object, cells = [TextV ''2.5'', TextV ''y'', TextV ''1'']\<rparr>,
      \<lparr>name = ''c'', dtype = Object, cells = [TextV ''1.5'', TextV ''x'', TextV ''3'']\<rparr>]"

lemma survey_run:
  "convert_column_types sample_pandas survey [(''a'', ''int''), (''c'', ''int''), (''b'', ''float'')]
     = ([\<lparr>name = ''a'', dtype = NullableInt64, cells = [IntV 1, Missing NA, IntV 3]\<rparr>,
         \<lparr>name = ''b'', dtype = Float64, cells = [FloatV (5 / 2), Missing NaN, FloatV 1]\<rparr>,
         \<lparr>name = ''c'', dtype = Object, cells = [TextV ''1.5'', TextV ''x'', TextV ''3'']\<rparr>],
        [(''c'', ''int'', TypeError)])"
  by (simp add: survey_def sample_pandas_def convert_one_def assign_def as_int_def as_float_def
      to_numeric_def all_int_def get_col_def set_col_def)

text \<open>
  The theorem on a frame of three text columns: \<^verbatim>\<open>["1","x","3"]\<close> to integer gives
  \<^verbatim>\<open>[1, missing, 3]\<close>, the column with \<^verbatim>\<open>"1.5"\<close> stays as it was, and the third
  column is still converted to float.
\<close>

theorem convert_column_types_isolated_witness:
  "\<exists>a' b' c'.
      get_col (fst (convert_column_types sample_pandas survey
                 [(''a'', ''int''), (''c'', ''int''), (''b'', ''float'')])) ''a'' = Some a'
      \<and> cells a' = [IntV 1, Missing NA, IntV 3]
      \<and> get_col (fst (convert_column_types sample_pandas survey
                 [(''a'', ''int''), (''c'', ''int''), (''b'', ''float'')])) ''b'' = Some b'
      \<and> cells b' ! 1 = Missing NaN
      \<and> get_col (fst (convert_column_types sample_pandas survey
                 [(''a'', ''int''), (''c'', ''int''), (''b'', ''float'')])) ''c'' = Some c'
      \<and> cells c' = [TextV ''1.5'', TextV ''x'', TextV ''3'']"
proof -
  let ?convs = "[(''a'', ''int''), (''c'', ''int''), (''b'', ''float'')]"
  let ?a = "\<lparr>name = ''a'', dtype = Object, cells = [TextV ''1'', TextV ''x'', TextV ''3'']\<rparr>"
  let ?b = "\<lparr>name = ''b'', dtype = Object, cells = [TextV ''2.5'', TextV ''y'', TextV ''1'']\<rparr>"
  let ?c = "\<lparr>name = ''c'', dtype = Object, cells = [TextV ''1.5'', TextV ''x'', TextV ''3'']\<rparr>"
  have d1: "distinct (map name survey)" and d2: "distinct (map fst ?convs)"
    by (simp_all add: survey_def)
  have ga: "get_col survey ''a'' = Some ?a" and gb: "get_col survey ''b'' = Some ?b"
    and gc: "get_col survey ''c'' = Some ?c"
    by (simp_all add: survey_def get_col_def)
  have wa: "whole_numbers sample_pandas (cells ?a)" and wc: "\<not> whole_numbers sample_pandas (cells ?c)"
    by (simp_all add: whole_numbers_def num_whole_def sample_pandas_def)
  have ma: "map (\<lambda>x. int_of_num (to_numeric_cell sample_pandas x)) (cells ?a) = [IntV 1, Missing NA, IntV 3]"
    by (simp add: sample_pandas_def)
  have nb: "to_numeric_cell sample_pandas (cells ?b ! 1) = None"
    by (simp add: sample_pandas_def)
  have "\<exists>a'. get_col (fst (convert_column_types sample_pandas survey ?convs)) ''a'' = Some a'
      \<and> cells a' = [IntV 1, Missing NA, IntV 3]"
    using convert_column_types_isolated [OF d1 d2 _ ga, of "''int''" sample_pandas] wa ma by auto
  moreover have "\<exists>b'. get_col (fst (convert_column_types sample_pandas survey ?convs)) ''b'' = Some b'
      \<and> cells b' ! 1 = Missing NaN"
    using convert_column_types_isolated [OF d1 d2 _ gb, of "''float''" sample_pandas] nb by auto
  moreover have "\<exists>c'. get_col (fst (convert_column_types sample_pandas survey ?convs)) ''c'' = Some c'
      \<and> cells c' = [TextV ''1.5'', TextV ''x'', TextV ''3'']"
    using convert_column_types_isolated [OF d1 d2 _ gc, of "''int''" sample_pandas] wc by auto
  ultimately show ?thesis by blast
qed

text \<open>
  C4 as stated fails: in the column \<^verbatim>\<open>["1.5","x","3"]\<close> the cell \<^verbatim>\<open>"x"\<close> does not
  parse, and converting the column to integer leaves it the text it was, not missing.
\<close>

theorem convert_column_types_int_counterexample:
  "to_numeric_cell sample_pandas (TextV ''x'') = None
   \<and> convert_column_types sample_pandas survey [(''c'', ''int'')] = (survey, [(''c'', ''int'', TypeError)])
   \<and> get_col survey ''c''
       = Some \<lparr>name = ''c'', dtype = Object, cells = [TextV ''1.5'', TextV ''x'', TextV ''3'']\<rparr>
   \<and> \<not> is_missing (TextV ''x'')"
  by (simp add: survey_def sample_pandas_def convert_one_def assign_def as_int_def
      to_numeric_def all_int_def get_col_def)

section \<open>Conversion to text\<close>

text \<open>
  C10, as amended. Converting a column to the target type \<^verbatim>\<open>str\<close> replaces every
  cell, the missing ones included, with its text, so the resulting column has no missing
  cell. A missing cell becomes the text of its marker: \<^verbatim>\<open>nan\<close> for a float
  \<^verbatim>\<open>nan\<close>, \<^verbatim>\<open>None\<close> for \<^verbatim>\<open>None\<close>, \<^verbatim>\<open>NaT\<close> and \<^verbatim>\<open><NA>\<close> for the other two.
\<close>

theorem convert_to_text_loses_missingness:
  assumes "distinct (map name df)"
    and "distinct (map fst conversions)"
    and "(col, ''str'') \<in> set conversions"
    and "get_col df col = Some c"
  shows "\<exists>c'. get_col (fst (convert_column_types L df conversions)) col = Some c'
     \<and> dtype c' = Object
     \<and> cells c' = map (\<lambda>x. TextV (astype_str L x)) (cells c)
     \<and> list_all (\<lambda>x. \<not> is_missing x) (cells c')
     \<and> (\<forall>i<length (cells c). \<forall>k. cells c ! i = Missing k \<longrightarrow> cells c' ! i = TextV (str_missing k))
     \<and> str_missing NaN = ''nan'' \<and> str_missing PyNone = ''None''
     \<and> str_missing NaT = ''NaT'' \<and> str_missing NA = ''<NA>''"
proof -
  have "get_col (fst (convert_column_types L df conversions)) col = Some (column_after L ''str'' c)"
    using assms(2,3,4) by (rule convert_column_types_column)
  moreover have "column_after L ''str'' c
      = c\<lparr>dtype := Object, cells := map (\<lambda>x. TextV (astype_str L x)) (cells c)\<rparr>"
    by (simp add: column_after_def updated_def as_str_def astype_str_col_def)
  ultimately show ?thesis
    by (simp add: list_all_iff)
qed

text \<open>The theorem on a column with two kinds of missing cells, a text and an integer.\<close>

theorem convert_to_text_loses_missingness_witness:
  "\<forall>L. \<exists>c'. get_col (fst (convert_column_types L
        [\<lparr>name = ''city'', dtype = Object, cells = [Missing NaN, Missing PyNone, TextV ''Pune'', IntV 7]\<rparr>]
        [(''city'', ''str'')])) ''city'' = Some c'
      \<and> cells c' = [TextV ''nan'', TextV ''None'', TextV ''Pune'', TextV ''7'']"
proof
  fix L
  let ?c = "\<lparr>name = ''city'', dtype = Object, cells = [Missing NaN, Missing PyNone, TextV ''Pune'', IntV 7]\<rparr>"
  have g: "get_col [?c] ''city'' = Some ?c" by (simp add: get_col_def)
  have m: "map (\<lambda>x. TextV (astype_str L x)) (cells ?c) = [TextV ''nan'', TextV ''None'', TextV ''Pune'', TextV ''7'']"
    by (simp add: str_int_def digit_chars_def)
  show "\<exists>c'. get_col (fst (convert_column_types L [?c] [(''city'', ''str'')])) ''city'' = Some c'
      \<and> cells c' = [TextV ''nan'', TextV ''None'', TextV ''Pune'', TextV ''7'']"
    using convert_to_text_loses_missingness [OF _ _ _ g, of "[(''city'', ''str'')]" L] m by auto
qed

text \<open>C10 as stated fails: a cell that is \<^verbatim>\<open>None\<close> becomes the text \<^verbatim>\<open>None\<close>, not
  \<^verbatim>\<open>nan\<close>.\<close>

theorem convert_to_text_none_counterexample:
  "\<forall>L. convert_column_types L
        [\<lparr>name = ''city'', dtype = Object, cells = [Missing PyNone, TextV ''Pune'']\<rparr>]
        [(''city'', ''str'')]
      = ([\<lparr>name = ''city'', dtype = Object, cells = [TextV ''None'', TextV ''Pune'']\<rparr>], [])"
  by (simp add: convert_one_def assign_def as_str_def astype_str_col_def get_col_def set_col_def)

section \<open>Rows: boolean masks, \<^verbatim>\<open>dropna\<close> and \<^verbatim>\<open>drop_duplicates\<close>\<close>

text \<open>
  The number of rows of a frame is the length of its columns; in an aligned frame all
  columns have that length. \<^verbatim>\<open>df[mask]\<close> keeps the rows at which the mask is true, in
  every column, in their order.
\<close>

definition nrows :: "dataframe \<Rightarrow> nat" where
  "nrows df = (case df of [] \<Rightarrow> 0 | c # cs \<Rightarrow> length (cells c))"

definition aligned :: "dataframe \<Rightarrow> bool" where
  "aligned df = list_all (\<lambda>c. length (cells c) = nrows df) df"

definition select :: "bool list \<Rightarrow> 'a list \<Rightarrow> 'a list" where
  "select bs xs = map snd (filter fst (zip bs xs))"

definition take_rows :: "bool list \<Rightarrow> dataframe \<Rightarrow> dataframe" where
  "take_rows bs df = map (\<lambda>c. c\<lparr>cells := select bs (cells c)\<rparr>) df"

text \<open>\<^verbatim>\<open>df[cols]\<close>, the columns of the listed names, raises \<^verbatim>\<open>KeyError\<close> when one is
  not there.\<close>

fun columns_of :: "dataframe \<Rightarrow> string list \<Rightarrow> error + column list" where
  "columns_of df [] = Inr []"
| "columns_of df (k # ks) =
     (case get_col df k of
        None \<Rightarrow> Inl KeyError
      | Some c \<Rightarrow> (case columns_of df ks of Inl e \<Rightarrow> Inl e | Inr cs \<Rightarrow> Inr (c # cs)))"

text \<open>\<^verbatim>\<open>.isnull()\<close> of a column and \<^verbatim>\<open>.any(axis=1)\<close> over the masks of the columns of a
  frame of \<open>n\<close> rows.\<close>

definition isnull :: "column \<Rightarrow> bool list" where
  "isnull c = map is_missing (cells c)"

fun any_axis1 :: "nat \<Rightarrow> bool list list \<Rightarrow> bool list" where
  "any_axis1 n [] = replicate n False"
| "any_axis1 n (m # ms) = map2 (\<or>) m (any_axis1 n ms)"

text \<open>
  \<^verbatim>\<open>df.dropna(subset=cols)\<close> drops the rows with a missing cell in one of the listed
  columns; \<^verbatim>\<open>df.dropna()\<close>, which is what \<^verbatim>\<open>handle_missing_values\<close> calls for the
  strategy \<^verbatim>\<open>drop\<close>, looks at all the columns.
\<close>

definition dropna_subset :: "dataframe \<Rightarrow> string list \<Rightarrow> error + dataframe" where
  "dropna_subset df cols =
     (case columns_of df cols of
        Inl e \<Rightarrow> Inl e
      | Inr cs \<Rightarrow> Inr (take_rows (map Not (any_axis1 (nrows df) (map isnull cs))) df))"

definition dropna :: "dataframe \<Rightarrow> dataframe" where
  "dropna df = take_rows (map Not (any_axis1 (nrows df) (map isnull df))) df"

text \<open>
  The branch of the strategy \<^verbatim>\<open>drop\<close> in the interface (app.py), with the columns
  chosen and whether the button was pressed. It returns the frame and the number of
  dropped rows that is reported, if one is.
\<close>

definition empty :: "dataframe \<Rightarrow> bool" where
  "empty df = (df = [] \<or> nrows df = 0)"

definition drop_strategy :: "dataframe \<Rightarrow> string list \<Rightarrow> bool \<Rightarrow> error + dataframe \<times> nat option" where
  "drop_strategy df drop_cols button =
     (if drop_cols \<noteq> [] then
        (case columns_of df drop_cols of
           Inl e \<Rightarrow> Inl e
         | Inr cs \<Rightarrow>
             (let rows_with_nulls = take_rows (any_axis1 (nrows df) (map isnull cs)) df
              in if \<not> empty rows_with_nulls then
                   (if button then
                      (case dropna_subset df drop_cols of
                         Inl e \<Rightarrow> Inl e
                       | Inr df' \<Rightarrow> Inr (df', Some (nrows df - nrows df')))
                    else Inr (df, None))
                 else Inr (df, None)))
      else Inr (df, None))"

text \<open>The row positions below \<open>n\<close> that satisfy \<open>P\<close>, in ascending order.\<close>

definition kept_rows :: "(nat \<Rightarrow> bool) \<Rightarrow> nat \<Rightarrow> nat list" where
  "kept_rows P n = filter P [0..<n]"

lemma kept_rows_ascending: "sorted_wrt (<) (kept_rows P n)"
  by (simp add: kept_rows_def sorted_wrt_filter)

lemma select_Cons: "select (b # bs) (x # xs) = (if b then x # select bs xs else select bs xs)"
  by (simp add: select_def)

lemma select_positions:
  "length bs = length xs \<Longrightarrow> select bs xs = map (nth xs) (filter (nth bs) [0..<length xs])"
proof (induction bs xs rule: list_induct2)
  case Nil
  then show ?case by (simp add: select_def)
next
  case (Cons b bs x xs)
  have u: "[0..<Suc (length xs)] = 0 # map Suc [0..<length xs]"
    by (simp add: upt_conv_Cons map_Suc_upt del: upt_Suc)
  have f: "filter (nth (b # bs)) (map Suc [0..<length xs]) = map Suc (filter (nth bs) [0..<length xs])"
    by (simp add: filter_map comp_def)
  have m: "map (nth (x # xs)) (map Suc ns) = map (nth xs) ns" for ns
    by simp
  have "map (nth (x # xs)) (filter (nth (b # bs)) [0..<length (x # xs)])
      = (if b then [x] else []) @ map (nth xs) (filter (nth bs) [0..<length xs])"
    unfolding length_Cons u filter.simps f by (simp add: m)
  then show ?case
    using Cons.IH by (simp add: select_Cons)
qed

lemma select_length: "length (select bs xs) \<le> length xs"
proof -
  have "length (select bs xs) \<le> length (zip bs xs)"
    unfolding select_def length_map by (rule length_filter_le)
  then show ?thesis by simp
qed

lemma filter_upt_cong: "(\<And>i. i < n \<Longrightarrow> P i = Q i) \<Longrightarrow> filter P [0..<n] = filter Q [0..<n]"
  by (rule filter_cong) auto

lemma take_rows_cells:
  assumes "aligned df" and "length bs = nrows df" and "\<And>i. i < nrows df \<Longrightarrow> bs ! i = P i"
  shows "map cells (take_rows bs df) = map (\<lambda>c. map (nth (cells c)) (kept_rows P (nrows df))) df"
proof -
  have "select bs (cells c) = map (nth (cells c)) (kept_rows P (nrows df))" if "c \<in> set df" for c
  proof -
    have l: "length (cells c) = nrows df"
      using assms(1) that by (simp add: aligned_def list_all_iff)
    have "filter (nth bs) [0..<nrows df] = filter P [0..<nrows df]"
      using assms(3) by (rule filter_upt_cong)
    then show ?thesis
      using select_positions [of bs "cells c"] assms(2) l by (simp add: kept_rows_def)
  qed
  then show ?thesis
    by (simp add: take_rows_def)
qed

lemma take_rows_names: "map name (take_rows bs df) = map name df"
  by (simp add: take_rows_def)

lemma take_rows_nrows: "nrows (take_rows bs df) \<le> nrows df"
  by (cases df) (simp_all add: take_rows_def nrows_def select_length)

lemma any_axis1_length:
  "list_all (\<lambda>m. length m = n) ms \<Longrightarrow> length (any_axis1 n ms) = n"
  by (induction ms) simp_all

lemma any_axis1_nth:
  "list_all (\<lambda>m. length m = n) ms \<Longrightarrow> i < n \<Longrightarrow> any_axis1 n ms ! i = list_ex (\<lambda>m. m ! i) ms"
  by (induction ms) (simp_all add: any_axis1_length)

lemma columns_of_cols:
  "columns_of df ks = Inr cs \<Longrightarrow> list_all2 (\<lambda>k c. get_col df k = Some c) ks cs"
  by (induction ks arbitrary: cs) (auto split: option.splits sum.splits)

lemma columns_of_present:
  "set ks \<subseteq> set (map name df) \<Longrightarrow> \<exists>cs. columns_of df ks = Inr cs"
proof (induction ks)
  case Nil
  then show ?case by simp
next
  case (Cons k ks)
  then obtain cs where "columns_of df ks = Inr cs" by auto
  moreover obtain c where "get_col df k = Some c"
    using Cons.prems get_col_None [of df k] by (cases "get_col df k") auto
  ultimately show ?case by simp
qed

section \<open>Missing-Value Handler, strategy \<^verbatim>\<open>drop\<close>\<close>

text \<open>Row \<open>i\<close> holds a missing value in at least one of the listed columns.\<close>

definition holds_missing :: "dataframe \<Rightarrow> string list \<Rightarrow> nat \<Rightarrow> bool" where
  "holds_missing df cols i =
     list_ex (\<lambda>k. case get_col df k of None \<Rightarrow> False | Some c \<Rightarrow> is_missing (cells c ! i)) cols"

lemma columns_of_aligned:
  assumes "aligned df" and "columns_of df ks = Inr cs"
  shows "list_all (\<lambda>c. length (cells c) = nrows df) cs"
proof -
  have "list_all2 (\<lambda>k c. get_col df k = Some c) ks cs"
    using assms(2) by (rule columns_of_cols)
  then have "\<forall>c\<in>set cs. c \<in> set df"
    by (induction rule: list_all2_induct) (auto dest: get_col_name)
  then show ?thesis
    using assms(1) by (auto simp: aligned_def list_all_iff)
qed

lemma isnull_any:
  assumes "aligned df" and "columns_of df ks = Inr cs" and "i < nrows df"
  shows "any_axis1 (nrows df) (map isnull cs) ! i = holds_missing df ks i"
    and "length (any_axis1 (nrows df) (map isnull cs)) = nrows df"
proof -
  have len: "list_all (\<lambda>m. length m = nrows df) (map isnull cs)"
    using columns_of_aligned [OF assms(1,2)] by (simp add: list_all_iff isnull_def)
  have l2: "list_all2 (\<lambda>k c. get_col df k = Some c) ks cs"
    using assms(2) by (rule columns_of_cols)
  have al: "list_all (\<lambda>c. length (cells c) = nrows df) cs"
    using columns_of_aligned [OF assms(1,2)] .
  have "list_ex (\<lambda>m. m ! i) (map isnull cs) = list_ex (\<lambda>c. is_missing (cells c ! i)) cs"
    using al assms(3) by (induction cs) (simp_all add: isnull_def)
  also have "\<dots> = holds_missing df ks i"
    unfolding holds_missing_def using l2 by (induction rule: list_all2_induct) simp_all
  finally show "any_axis1 (nrows df) (map isnull cs) ! i = holds_missing df ks i"
    using any_axis1_nth [OF len assms(3)] by simp
  show "length (any_axis1 (nrows df) (map isnull cs)) = nrows df"
    using len by (rule any_axis1_length)
qed

lemma any_axis1_len:
  assumes "aligned df" and "columns_of df ks = Inr cs"
  shows "length (any_axis1 (nrows df) (map isnull cs)) = nrows df"
proof -
  have "list_all (\<lambda>m. length m = nrows df) (map isnull cs)"
    using columns_of_aligned [OF assms] by (simp add: list_all_iff isnull_def)
  then show ?thesis by (rule any_axis1_length)
qed

lemma take_rows_none:
  assumes "aligned df" and "df \<noteq> []" and "length bs = nrows df" and "nrows (take_rows bs df) = 0"
    and "i < nrows df"
  shows "\<not> bs ! i"
proof
  assume b: "bs ! i"
  obtain c cs where df: "df = c # cs" using assms(2) by (cases df) auto
  have l: "length (cells c) = nrows df" by (simp add: df nrows_def)
  have "select bs (cells c) = []"
    using assms(4) by (simp add: df take_rows_def nrows_def)
  then have "filter (nth bs) [0..<nrows df] = []"
    using select_positions [of bs "cells c"] assms(3) l by simp
  then show False
    using b assms(5) by (simp add: filter_empty_conv)
qed

lemma kept_rows_all: "(\<And>i. i < length xs \<Longrightarrow> P i) \<Longrightarrow> map (nth xs) (kept_rows P (length xs)) = xs"
proof -
  assume "\<And>i. i < length xs \<Longrightarrow> P i"
  then have "filter P [0..<length xs] = [0..<length xs]"
    by (simp add: filter_id_conv)
  then show ?thesis
    by (simp add: kept_rows_def map_nth)
qed

text \<open>
  C2. For every dataset and every non-empty list of columns of the dataset, dropping with
  the strategy \<^verbatim>\<open>drop\<close> keeps, in every column and in the original order, exactly the
  rows in which none of the listed columns holds a missing value: the rows removed are
  those with a missing value in a listed column, a row whose missing values lie in other
  columns only is retained, and the result has at most as many rows as the input. The
  names of the columns stay as they were.
\<close>

theorem drop_strategy_drops_incomplete_rows:
  assumes "aligned df"
    and "distinct (map name df)"
    and "drop_cols \<noteq> []"
    and "set drop_cols \<subseteq> set (map name df)"
  shows "\<exists>df' msg. drop_strategy df drop_cols True = Inr (df', msg)
           \<and> map name df' = map name df
           \<and> map cells df'
               = map (\<lambda>c. map (nth (cells c))
                            (kept_rows (\<lambda>i. \<not> holds_missing df drop_cols i) (nrows df))) df
           \<and> sorted_wrt (<) (kept_rows (\<lambda>i. \<not> holds_missing df drop_cols i) (nrows df))
           \<and> nrows df' \<le> nrows df
           \<and> (msg = None \<or> msg = Some (nrows df - nrows df'))"
proof -
  obtain cs where cs: "columns_of df drop_cols = Inr cs"
    using columns_of_present [OF assms(4)] by blast
  let ?bs = "any_axis1 (nrows df) (map isnull cs)"
  let ?P = "\<lambda>i. \<not> holds_missing df drop_cols i"
  have len: "length ?bs = nrows df"
    using any_axis1_len [OF assms(1) cs] .
  have nth: "\<And>i. i < nrows df \<Longrightarrow> ?bs ! i = holds_missing df drop_cols i"
    using isnull_any(1) [OF assms(1) cs] .
  have ne: "df \<noteq> []"
    using assms(3,4) by (cases drop_cols) auto
  show ?thesis
  proof (cases "empty (take_rows ?bs df)")
    case False
    let ?df' = "take_rows (map Not ?bs) df"
    have r: "drop_strategy df drop_cols True = Inr (?df', Some (nrows df - nrows ?df'))"
      using False cs assms(3) by (simp add: drop_strategy_def dropna_subset_def)
    have "map cells ?df' = map (\<lambda>c. map (nth (cells c)) (kept_rows ?P (nrows df))) df"
      using assms(1) by (rule take_rows_cells) (simp_all add: len nth)
    then show ?thesis
      using r take_rows_names [of "map Not ?bs" df] take_rows_nrows [of "map Not ?bs" df]
        kept_rows_ascending [of ?P "nrows df"] by simp
  next
    case True
    then have z: "nrows (take_rows ?bs df) = 0"
      using ne by (simp add: empty_def take_rows_def)
    have r: "drop_strategy df drop_cols True = Inr (df, None)"
      using True cs assms(3) by (simp add: drop_strategy_def)
    have all: "\<And>i. i < nrows df \<Longrightarrow> ?P i"
      using take_rows_none [OF assms(1) ne len z] nth by simp
    have "map (nth (cells c)) (kept_rows ?P (nrows df)) = cells c" if "c \<in> set df" for c
    proof -
      have "length (cells c) = nrows df"
        using assms(1) that by (simp add: aligned_def list_all_iff)
      then show ?thesis
        using kept_rows_all [of "cells c" ?P] all by simp
    qed
    then have "map cells df = map (\<lambda>c. map (nth (cells c)) (kept_rows ?P (nrows df))) df"
      by simp
    then show ?thesis
      using r kept_rows_ascending [of ?P "nrows df"] by simp
  qed
qed

text \<open>The theorem on a frame of four rows: the row with a missing city is dropped, the row
  with a missing age only is kept.\<close>

definition customers :: dataframe where
  "customers =
     [\<lparr>name = ''id'', dtype = Int64, cells = [IntV 1, IntV 2, IntV 3, IntV 4]\<rparr>,
      \<lparr>name = ''city'', dtype = Object,
       cells = [TextV ''Pune'', Missing PyNone, TextV ''Delhi'', TextV ''Pune'']\<rparr>,
      \<lparr>name = ''age'', dtype = Float64,
       cells = [FloatV 30, FloatV 41, Missing NaN, FloatV 30]\<rparr>]"

theorem drop_strategy_drops_incomplete_rows_witness:
  "\<exists>msg. drop_strategy customers [''city''] True
     = Inr ([\<lparr>name = ''id'', dtype = Int64, cells = [IntV 1, IntV 3, IntV 4]\<rparr>,
             \<lparr>name = ''city'', dtype = Object, cells = [TextV ''Pune'', TextV ''Delhi'', TextV ''Pune'']\<rparr>,
             \<lparr>name = ''age'', dtype = Float64, cells = [FloatV 30, Missing NaN, FloatV 30]\<rparr>], msg)"
proof -
  have a: "aligned customers" and d: "distinct (map name customers)"
    and s: "set [''city''] \<subseteq> set (map name customers)"
    by (simp_all add: customers_def aligned_def nrows_def)
  have n: "nrows customers = 4"
    by (simp add: customers_def nrows_def)
  have k: "kept_rows (\<lambda>i. \<not> holds_missing customers [''city''] i) 4 = [0, 2, 3]"
  proof -
    have u: "[0..<4] = [0, 1, 2, 3::nat]" by (simp add: upt_rec)
    show ?thesis
      unfolding kept_rows_def u by (simp add: holds_missing_def customers_def get_col_def)
  qed
  obtain df' msg where r: "drop_strategy customers [''city''] True = Inr (df', msg)"
    and nm: "map name df' = map name customers"
    and cl: "map cells df' = map (\<lambda>c. map (nth (cells c)) [0, 2, 3]) customers"
    using drop_strategy_drops_incomplete_rows [OF a d _ s] n k by auto
  have dt: "map dtype df' = map dtype customers"
    using r by (auto simp: drop_strategy_def dropna_subset_def take_rows_def customers_def get_col_def
        split: if_splits)
  have "df' = [\<lparr>name = ''id'', dtype = Int64, cells = [IntV 1, IntV 3, IntV 4]\<rparr>,
             \<lparr>name = ''city'', dtype = Object, cells = [TextV ''Pune'', TextV ''Delhi'', TextV ''Pune'']\<rparr>,
             \<lparr>name = ''age'', dtype = Float64, cells = [FloatV 30, Missing NaN, FloatV 30]\<rparr>]"
    using nm cl dt by (auto simp: customers_def map_eq_Cons_conv)
  then show ?thesis using r by blast
qed

section \<open>Deduplicator: \<^verbatim>\<open>remove_duplicates\<close>\<close>

text \<open>
  \<^verbatim>\<open>df.drop_duplicates(subset=cols)\<close> keeps the first row of every combination of key
  values (\<^verbatim>\<open>keep="first"\<close>). pandas compares the key cells as values: the missing markers
  count as one value, and a number is the same key whether it is an integer, a float or a
  boolean. \<open>duplicated\<close> marks a key that was seen in an earlier row.
\<close>

datatype key = KMissing | KNum real | KText string | KDate int

fun dup_key :: "cell \<Rightarrow> key" where
  "dup_key (Missing k) = KMissing"
| "dup_key (IntV i) = KNum (of_int i)"
| "dup_key (FloatV r) = KNum r"
| "dup_key (BoolV b) = KNum (if b then 1 else 0)"
| "dup_key (TextV s) = KText s"
| "dup_key (DateV d) = KDate d"

definition key_row :: "column list \<Rightarrow> nat \<Rightarrow> key list" where
  "key_row cs i = map (\<lambda>c. dup_key (cells c ! i)) cs"

fun duplicated :: "'k list \<Rightarrow> 'k list \<Rightarrow> bool list" where
  "duplicated seen [] = []"
| "duplicated seen (k # ks) = (k \<in> set seen) # duplicated (k # seen) ks"

definition drop_duplicates :: "dataframe \<Rightarrow> string list \<Rightarrow> error + dataframe" where
  "drop_duplicates df cols =
     (case columns_of df cols of
        Inl e \<Rightarrow> Inl e
      | Inr cs \<Rightarrow>
          Inr (take_rows (map Not (duplicated [] (map (key_row cs) [0..<nrows df]))) df))"

definition remove_duplicates :: "dataframe \<Rightarrow> string list \<Rightarrow> error + dataframe" where
  "remove_duplicates df subset_cols = drop_duplicates df subset_cols"

text \<open>The key of row \<open>i\<close> in the listed columns, and: no earlier row has the key of row
  \<open>i\<close>.\<close>

definition key_at :: "dataframe \<Rightarrow> string list \<Rightarrow> nat \<Rightarrow> key list" where
  "key_at df cols i =
     map (\<lambda>k. case get_col df k of None \<Rightarrow> KMissing | Some c \<Rightarrow> dup_key (cells c ! i)) cols"

definition first_of :: "(nat \<Rightarrow> 'k) \<Rightarrow> nat \<Rightarrow> bool" where
  "first_of f i = list_all (\<lambda>j. f j \<noteq> f i) [0..<i]"

lemma duplicated_length: "length (duplicated seen ks) = length ks"
  by (induction ks arbitrary: seen) simp_all

lemma duplicated_nth:
  "i < length ks \<Longrightarrow> duplicated seen ks ! i = (ks ! i \<in> set seen \<or> (\<exists>j<i. ks ! j = ks ! i))"
proof (induction ks arbitrary: seen i)
  case Nil
  then show ?case by simp
next
  case (Cons k ks)
  show ?case
  proof (cases i)
    case 0
    then show ?thesis by simp
  next
    case (Suc n)
    then have n: "n < length ks" using Cons.prems by simp
    have "(\<exists>j<Suc n. (k # ks) ! j = ks ! n) = (k = ks ! n \<or> (\<exists>j<n. ks ! j = ks ! n))"
    proof
      assume "\<exists>j<Suc n. (k # ks) ! j = ks ! n"
      then obtain j where j: "j < Suc n" "(k # ks) ! j = ks ! n" by blast
      then show "k = ks ! n \<or> (\<exists>j<n. ks ! j = ks ! n)"
        by (cases j) auto
    next
      assume "k = ks ! n \<or> (\<exists>j<n. ks ! j = ks ! n)"
      then show "\<exists>j<Suc n. (k # ks) ! j = ks ! n"
      proof
        assume "k = ks ! n"
        then have "0 < Suc n \<and> (k # ks) ! 0 = ks ! n" by simp
        then show ?thesis by blast
      next
        assume "\<exists>j<n. ks ! j = ks ! n"
        then obtain j where "j < n" "ks ! j = ks ! n" by blast
        then have "Suc j < Suc n \<and> (k # ks) ! Suc j = ks ! n" by simp
        then show ?thesis by blast
      qed
    qed
    then show ?thesis
      using Cons.IH [OF n, of "k # seen"] Suc by auto
  qed
qed

lemma not_duplicated_first:
  assumes "i < n"
  shows "map Not (duplicated [] (map f [0..<n])) ! i = first_of f i"
proof -
  have "duplicated [] (map f [0..<n]) ! i = (\<exists>j<i. f j = f i)"
    using duplicated_nth [of i "map f [0..<n]" "[]"] assms by auto
  then show ?thesis
    using assms by (auto simp: first_of_def list_all_iff duplicated_length)
qed

lemma key_row_key_at:
  assumes "columns_of df cols = Inr cs"
  shows "key_row cs i = key_at df cols i"
proof -
  have "list_all2 (\<lambda>k c. get_col df k = Some c) cols cs"
    using assms by (rule columns_of_cols)
  then show ?thesis
    unfolding key_row_def key_at_def by (induction rule: list_all2_induct) simp_all
qed

lemma kept_first_distinct: "distinct (map f (kept_rows (first_of f) n))"
proof -
  have "inj_on f (set (kept_rows (first_of f) n))"
  proof (rule inj_onI)
    fix i j
    assume i: "i \<in> set (kept_rows (first_of f) n)" and j: "j \<in> set (kept_rows (first_of f) n)"
      and e: "f i = f j"
    have fi: "\<forall>k<i. f k \<noteq> f i" and fj: "\<forall>k<j. f k \<noteq> f j"
      using i j by (auto simp: kept_rows_def first_of_def list_all_iff)
    show "i = j"
    proof (rule ccontr)
      assume "i \<noteq> j"
      then consider "i < j" | "j < i" by linarith
      then show False
        using fi fj e by cases auto
    qed
  qed
  moreover have "distinct (kept_rows (first_of f) n)"
    by (simp add: kept_rows_def)
  ultimately show ?thesis
    by (simp add: distinct_map)
qed

lemma kept_first_covers:
  "i < n \<Longrightarrow> \<exists>j\<in>set (kept_rows (first_of f) n). j \<le> i \<and> f j = f i"
proof (induction i rule: less_induct)
  case (less i)
  show ?case
  proof (cases "first_of f i")
    case True
    then have "i \<in> set (kept_rows (first_of f) n)"
      using less.prems by (simp add: kept_rows_def)
    then show ?thesis by blast
  next
    case False
    then obtain k where k: "k < i" "f k = f i"
      by (auto simp: first_of_def list_all_iff)
    then obtain j where "j \<in> set (kept_rows (first_of f) n)" "j \<le> k" "f j = f k"
      using less.IH [of k] less.prems by auto
    then show ?thesis
      using k by (intro bexI [of _ j]) auto
  qed
qed

lemma get_col_take_rows:
  "get_col (take_rows bs df) k = map_option (\<lambda>c. c\<lparr>cells := select bs (cells c)\<rparr>) (get_col df k)"
  unfolding get_col_def take_rows_def by (induction df) simp_all

lemma nrows_take_rows:
  assumes "df \<noteq> []" and "length bs = nrows df" and "\<And>i. i < nrows df \<Longrightarrow> bs ! i = P i"
  shows "nrows (take_rows bs df) = length (kept_rows P (nrows df))"
proof -
  obtain c cs where df: "df = c # cs" using assms(1) by (cases df) auto
  have l: "length (cells c) = nrows df" by (simp add: df nrows_def)
  have "filter (nth bs) [0..<nrows df] = filter P [0..<nrows df]"
    using assms(3) by (rule filter_upt_cong)
  then have "select bs (cells c) = map (nth (cells c)) (kept_rows P (nrows df))"
    using select_positions [of bs "cells c"] assms(2) l by (simp add: kept_rows_def)
  then show ?thesis
    by (simp add: df take_rows_def nrows_def)
qed

lemma key_at_take_rows:
  assumes "aligned df" and "length bs = nrows df" and "\<And>i. i < nrows df \<Longrightarrow> bs ! i = P i"
    and "i < length (kept_rows P (nrows df))"
  shows "key_at (take_rows bs df) cols i = key_at df cols (kept_rows P (nrows df) ! i)"
proof -
  have f: "filter (nth bs) [0..<nrows df] = filter P [0..<nrows df]"
    using assms(3) by (rule filter_upt_cong)
  have "(case get_col (take_rows bs df) k of None \<Rightarrow> KMissing | Some c \<Rightarrow> dup_key (cells c ! i))
      = (case get_col df k of None \<Rightarrow> KMissing | Some c \<Rightarrow> dup_key (cells c ! (kept_rows P (nrows df) ! i)))"
    for k
  proof (cases "get_col df k")
    case None
    then show ?thesis by (simp add: get_col_take_rows)
  next
    case (Some c)
    then have "c \<in> set df" using get_col_name by blast
    then have l: "length (cells c) = nrows df"
      using assms(1) by (simp add: aligned_def list_all_iff)
    have "select bs (cells c) = map (nth (cells c)) (kept_rows P (nrows df))"
      using select_positions [of bs "cells c"] assms(2) l f by (simp add: kept_rows_def)
    then show ?thesis
      using Some assms(4) by (simp add: get_col_take_rows)
  qed
  then show ?thesis
    by (simp add: key_at_def)
qed

lemma map_upt_nth: "(\<And>i. i < length xs \<Longrightarrow> f i = g (xs ! i)) \<Longrightarrow> map f [0..<length xs] = map g xs"
  by (rule nth_equalityI) simp_all

text \<open>
  C9. For every dataset and non-empty list of key columns of the dataset, the Deduplicator
  keeps, in every column and in the original order, exactly the rows that are the first
  with their combination of key values. The result has at most as many rows as the input,
  every row of the input has its key at a retained row that is not after it, and any two
  rows of the result differ in their key.
\<close>

theorem remove_duplicates_keeps_first:
  assumes "aligned df"
    and "distinct (map name df)"
    and "subset_cols \<noteq> []"
    and "set subset_cols \<subseteq> set (map name df)"
  shows "\<exists>df'. remove_duplicates df subset_cols = Inr df'
           \<and> map name df' = map name df
           \<and> map cells df'
               = map (\<lambda>c. map (nth (cells c))
                            (kept_rows (first_of (key_at df subset_cols)) (nrows df))) df
           \<and> sorted_wrt (<) (kept_rows (first_of (key_at df subset_cols)) (nrows df))
           \<and> nrows df' \<le> nrows df
           \<and> (\<forall>i<nrows df. \<exists>j\<in>set (kept_rows (first_of (key_at df subset_cols)) (nrows df)).
                  j \<le> i \<and> key_at df subset_cols j = key_at df subset_cols i)
           \<and> distinct (map (key_at df' subset_cols) [0..<nrows df'])"
proof -
  obtain cs where cs: "columns_of df subset_cols = Inr cs"
    using columns_of_present [OF assms(4)] by blast
  let ?key = "key_at df subset_cols"
  let ?kept = "kept_rows (first_of ?key) (nrows df)"
  let ?bs = "map Not (duplicated [] (map ?key [0..<nrows df]))"
  let ?df' = "take_rows ?bs df"
  have kr: "key_row cs = ?key"
    using key_row_key_at [OF cs] by auto
  have r: "remove_duplicates df subset_cols = Inr ?df'"
    using cs by (simp add: remove_duplicates_def drop_duplicates_def kr)
  have len: "length ?bs = nrows df"
    by (simp add: duplicated_length)
  have nth: "\<And>i. i < nrows df \<Longrightarrow> ?bs ! i = first_of ?key i"
    by (rule not_duplicated_first)
  have ne: "df \<noteq> []"
    using assms(3,4) by (cases subset_cols) auto
  have cl: "map cells ?df' = map (\<lambda>c. map (nth (cells c)) ?kept) df"
    using assms(1) len nth by (rule take_rows_cells)
  have n': "nrows ?df' = length ?kept"
    using ne len nth by (rule nrows_take_rows)
  have "map (key_at ?df' subset_cols) [0..<length ?kept] = map ?key ?kept"
    using key_at_take_rows [OF assms(1) len nth] by (intro map_upt_nth) auto
  then have di: "distinct (map (key_at ?df' subset_cols) [0..<nrows ?df'])"
    using kept_first_distinct [of ?key "nrows df"] n' by simp
  have cov: "\<forall>i<nrows df. \<exists>j\<in>set ?kept. j \<le> i \<and> ?key j = ?key i"
    using kept_first_covers [of _ "nrows df" ?key] by blast
  show ?thesis
    using r cl di cov take_rows_names [of ?bs df] take_rows_nrows [of ?bs df]
      kept_rows_ascending [of "first_of ?key" "nrows df"] by simp
qed

text \<open>The theorem on the frame of four rows, with city and age as the key: the fourth row
  repeats the first and is dropped.\<close>

theorem remove_duplicates_keeps_first_witness:
  "remove_duplicates customers [''city'', ''age'']
     = Inr [\<lparr>name = ''id'', dtype = Int64, cells = [IntV 1, IntV 2, IntV 3]\<rparr>,
            \<lparr>name = ''city'', dtype = Object, cells = [TextV ''Pune'', Missing PyNone, TextV ''Delhi'']\<rparr>,
            \<lparr>name = ''age'', dtype = Float64, cells = [FloatV 30, FloatV 41, Missing NaN]\<rparr>]"
proof -
  have a: "aligned customers" and d: "distinct (map name customers)"
    and s: "set [''city'', ''age''] \<subseteq> set (map name customers)"
    by (simp_all add: customers_def aligned_def nrows_def)
  have n: "nrows customers = 4"
    by (simp add: customers_def nrows_def)
  have k: "kept_rows (first_of (key_at customers [''city'', ''age''])) 4 = [0, 1, 2]"
  proof -
    have u: "[0..<4] = [0, 1, 2, 3::nat]" "[0..<3] = [0, 1, 2::nat]" "[0..<2] = [0, 1::nat]"
      "[0..<1] = [0::nat]"
      by (simp_all add: upt_rec)
    show ?thesis
      unfolding kept_rows_def first_of_def u
      by (simp add: key_at_def customers_def get_col_def u)
  qed
  obtain df' where r: "remove_duplicates customers [''city'', ''age''] = Inr df'"
    and nm: "map name df' = map name customers"
    and cl: "map cells df' = map (\<lambda>c. map (nth (cells c)) [0, 1, 2]) customers"
    using remove_duplicates_keeps_first [OF a d _ s] n k by auto
  have dt: "map dtype df' = map dtype customers"
    using r by (auto simp: remove_duplicates_def drop_duplicates_def take_rows_def customers_def
        get_col_def)
  have "df' = [\<lparr>name = ''id'', dtype = Int64, cells = [IntV 1, IntV 2, IntV 3]\<rparr>,
            \<lparr>name = ''city'', dtype = Object, cells = [TextV ''Pune'', Missing PyNone, TextV ''Delhi'']\<rparr>,
            \<lparr>name = ''age'', dtype = Float64, cells = [FloatV 30, FloatV 41, Missing NaN]\<rparr>]"
    using nm cl dt by (auto simp: customers_def map_eq_Cons_conv)
  then show ?thesis using r by simp
qed

section \<open>Statistics of a numeric column\<close>

text \<open>
  The values of a numeric column are read as real numbers. The statistics of pandas skip
  the missing cells: \<open>present\<close> is the list of the values that are there. \<^verbatim>\<open>mean()\<close> of
  no value is \<^verbatim>\<open>nan\<close> (\<open>None\<close> here). \<^verbatim>\<open>std()\<close> is the square root of the variance with
  \<^verbatim>\<open>ddof=1\<close>, the default of pandas: the squared deviations from the mean are divided by
  the number of values less one, and fewer than two values give \<^verbatim>\<open>nan\<close>.
\<close>

fun num_of :: "cell \<Rightarrow> real option" where
  "num_of (IntV i) = Some (of_int i)"
| "num_of (FloatV r) = Some r"
| "num_of c = None"

definition present :: "cell list \<Rightarrow> real list" where
  "present xs = List.map_filter num_of xs"

definition series_mean :: "cell list \<Rightarrow> real option" where
  "series_mean xs =
     (let vs = present xs
      in if vs = [] then None else Some (sum_list vs / real (length vs)))"

definition series_var :: "cell list \<Rightarrow> real option" where
  "series_var xs =
     (let vs = present xs
      in case series_mean xs of
           None \<Rightarrow> None
         | Some avg \<Rightarrow>
             if length vs \<le> 1 then None
             else Some (sum_list (map (\<lambda>v. (avg - v)\<^sup>2) vs) / real (length vs - 1)))"

definition series_std :: "cell list \<Rightarrow> real option" where
  "series_std xs = map_option sqrt (series_var xs)"

text \<open>\<^verbatim>\<open>median()\<close> is the middle of the sorted values, or the mean of the two in the
  middle. \<^verbatim>\<open>mode()\<close> is the series of the most frequent values, sorted; it is empty when
  no value is there.\<close>

definition series_median :: "cell list \<Rightarrow> real option" where
  "series_median xs =
     (let vs = sort (present xs); n = length vs
      in if n = 0 then None
         else if odd n then Some (vs ! (n div 2))
         else Some ((vs ! (n div 2 - 1) + vs ! (n div 2)) / 2))"

definition series_mode :: "cell list \<Rightarrow> real list" where
  "series_mode xs =
     (let vs = present xs
      in sort (remdups (filter (\<lambda>v. list_all (\<lambda>w. count_list vs w \<le> count_list vs v) vs) vs)))"

section \<open>Missing-Value Handler: \<^verbatim>\<open>handle_missing_values\<close>\<close>

text \<open>
  \<^verbatim>\<open>series.fillna(stat)\<close> with the statistic of the column: filling with \<^verbatim>\<open>nan\<close> changes
  nothing. A float column takes any value; an integer column with a missing cell takes a
  whole number and raises \<^verbatim>\<open>TypeError\<close> on any other.
\<close>

definition value_cell :: "dtype \<Rightarrow> real \<Rightarrow> error + cell" where
  "value_cell d v =
     (if d = Float64 then Inr (FloatV v)
      else if v = of_int \<lfloor>v\<rfloor> then Inr (IntV \<lfloor>v\<rfloor>)
      else Inl TypeError)"

definition fill_stat :: "dtype \<Rightarrow> real option \<Rightarrow> cell list \<Rightarrow> error + cell list" where
  "fill_stat d stat xs =
     (case stat of
        None \<Rightarrow> Inr xs
      | Some v \<Rightarrow>
          if list_ex is_missing xs then
            (case value_cell d v of Inl e \<Rightarrow> Inl e | Inr y \<Rightarrow> Inr (fillna y xs))
          else Inr xs)"

text \<open>
  The chain of \<^verbatim>\<open>if method == ...\<close> for one column. \<^verbatim>\<open>df[col].mode()[0]\<close> reads the
  first entry of the modes, which raises \<^verbatim>\<open>KeyError\<close> when there is none.
\<close>

definition impute_series :: "string option \<Rightarrow> dtype \<Rightarrow> cell list \<Rightarrow> error + cell list" where
  "impute_series method d xs =
     (if method = Some ''mean'' then fill_stat d (series_mean xs) xs
      else if method = Some ''median'' then fill_stat d (series_median xs) xs
      else if method = Some ''mode'' then
        (case series_mode xs of
           [] \<Rightarrow> Inl KeyError
         | v # vs \<Rightarrow> fill_stat d (Some v) xs)
      else Inr xs)"

text \<open>The loop over the numeric columns, whose names are read before the loop starts. An
  exception leaves the loop and the function.\<close>

fun impute_loop :: "dataframe \<Rightarrow> string list \<Rightarrow> string option \<Rightarrow> error + dataframe" where
  "impute_loop df [] method = Inr df"
| "impute_loop df (col # cols) method =
     (case get_col df col of
        None \<Rightarrow> Inl KeyError
      | Some c \<Rightarrow>
          (case impute_series method (dtype c) (cells c) of
             Inl e \<Rightarrow> Inl e
           | Inr ys \<Rightarrow> impute_loop (set_col df col (dtype c) ys) cols method))"

definition numeric_columns :: "dataframe \<Rightarrow> string list" where
  "numeric_columns df = map name (filter (\<lambda>c. is_numeric (dtype c)) df)"

definition handle_missing_values :: "dataframe \<Rightarrow> string \<Rightarrow> string option \<Rightarrow> error + dataframe" where
  "handle_missing_values df strategy method =
     (if strategy = ''drop'' then Inr (dropna df)
      else if strategy = ''impute'' then impute_loop df (numeric_columns df) method
      else Inr df)"

section \<open>Imputing a column whose cells are all missing\<close>

lemma present_all_missing: "list_all is_missing xs \<Longrightarrow> present xs = []"
proof (induction xs)
  case Nil
  then show ?case by (simp add: present_def)
next
  case (Cons x xs)
  then show ?case by (cases x) (simp_all add: present_def)
qed

lemma impute_all_missing:
  assumes "list_all is_missing xs"
  shows "impute_series (Some ''mean'') d xs = Inr xs"
    and "impute_series (Some ''median'') d xs = Inr xs"
    and "impute_series (Some ''mode'') d xs = Inl KeyError"
  using present_all_missing [OF assms]
  by (simp_all add: impute_series_def fill_stat_def series_mean_def series_median_def series_mode_def)

text \<open>A frame with a float column whose two cells are both missing.\<close>

definition scores :: dataframe where
  "scores =
     [\<lparr>name = ''student'', dtype = Object, cells = [TextV ''a'', TextV ''b'']\<rparr>,
      \<lparr>name = ''score'', dtype = Float64, cells = [Missing NaN, Missing NaN]\<rparr>]"

text \<open>
  C3. A frame with a float column whose two cells are both missing: imputing with
  \<^verbatim>\<open>mode\<close> raises \<^verbatim>\<open>KeyError\<close>, while \<^verbatim>\<open>mean\<close> and \<^verbatim>\<open>median\<close> return the
  frame unchanged.
\<close>

theorem handle_missing_values_mode_all_missing:
  "handle_missing_values scores ''impute'' (Some ''mode'') = Inl KeyError
   \<and> handle_missing_values scores ''impute'' (Some ''mean'') = Inr scores
   \<and> handle_missing_values scores ''impute'' (Some ''median'') = Inr scores"
  by (simp add: handle_missing_values_def numeric_columns_def scores_def get_col_def set_col_def
      impute_all_missing)

text \<open>Imputation with the mean on \<^verbatim>\<open>[1, missing, 3]\<close> gives \<^verbatim>\<open>[1, 2, 3]\<close>.\<close>

lemma mean_example:
  "handle_missing_values [\<lparr>name = ''x'', dtype = Float64, cells = [FloatV 1, Missing NaN, FloatV 3]\<rparr>]
      ''impute'' (Some ''mean'')
   = Inr [\<lparr>name = ''x'', dtype = Float64, cells = [FloatV 1, FloatV 2, FloatV 3]\<rparr>]"
  by (simp add: handle_missing_values_def numeric_columns_def get_col_def set_col_def
      impute_series_def fill_stat_def series_mean_def present_def value_cell_def fillna_def)

section \<open>Outlier Detector: \<^verbatim>\<open>detect_outliers\<close>\<close>

text \<open>
  \<^verbatim>\<open>z_score = (df[col] - df[col].mean()) / df[col].std()\<close>, cell by cell. A float
  division can give an infinity or \<^verbatim>\<open>nan\<close>: dividing by zero gives \<^verbatim>\<open>nan\<close> for
  \<^verbatim>\<open>0/0\<close> and an infinity otherwise, and a missing cell, mean or deviation gives
  \<^verbatim>\<open>nan\<close>. \<^verbatim>\<open>z_score.abs() > 3\<close> is false on \<^verbatim>\<open>nan\<close> and true on an infinity.
\<close>

datatype fl = Finite real | PInf | NInf | NaNf

definition fdiv :: "real \<Rightarrow> real \<Rightarrow> fl" where
  "fdiv a b =
     (if b = 0 then (if a = 0 then NaNf else if 0 < a then PInf else NInf)
      else Finite (a / b))"

definition z_score :: "real option \<Rightarrow> real option \<Rightarrow> cell \<Rightarrow> fl" where
  "z_score avg sd x =
     (case (num_of x, avg, sd) of
        (Some v, Some m, Some s) \<Rightarrow> fdiv (v - m) s
      | _ \<Rightarrow> NaNf)"

fun abs_gt3 :: "fl \<Rightarrow> bool" where
  "abs_gt3 (Finite r) = (3 < \<bar>r\<bar>)"
| "abs_gt3 PInf = True"
| "abs_gt3 NInf = True"
| "abs_gt3 NaNf = False"

text \<open>\<^verbatim>\<open>df[(z_score.abs() > 3)].shape[0]\<close>: the number of rows at which the mask is true.\<close>

definition outlier_count :: "cell list \<Rightarrow> nat" where
  "outlier_count xs =
     length (filter (\<lambda>b. b) (map (\<lambda>x. abs_gt3 (z_score (series_mean xs) (series_std xs) x)) xs))"

text \<open>The loop over the numeric columns: a column is written to the report when its count
  is positive.\<close>

fun outlier_loop :: "dataframe \<Rightarrow> string list \<Rightarrow> (string \<rightharpoonup> nat) \<Rightarrow> error + (string \<rightharpoonup> nat)" where
  "outlier_loop df [] outlier_report = Inr outlier_report"
| "outlier_loop df (col # cols) outlier_report =
     (case get_col df col of
        None \<Rightarrow> Inl KeyError
      | Some c \<Rightarrow>
          (let count = outlier_count (cells c)
           in outlier_loop df cols
                (if 0 < count then outlier_report(col \<mapsto> count) else outlier_report)))"

definition detect_outliers :: "dataframe \<Rightarrow> error + (string \<rightharpoonup> nat)" where
  "detect_outliers df = outlier_loop df (numeric_columns df) Map.empty"

section \<open>What the Outlier Detector reports\<close>

definition count_of :: "dataframe \<Rightarrow> string \<Rightarrow> nat" where
  "count_of df col = (case get_col df col of None \<Rightarrow> 0 | Some c \<Rightarrow> outlier_count (cells c))"

lemma outlier_loop_report:
  "set cols \<subseteq> set (map name df) \<Longrightarrow>
   outlier_loop df cols rep
     = Inr (\<lambda>k. if k \<in> set cols \<and> 0 < count_of df k then Some (count_of df k) else rep k)"
proof (induction cols arbitrary: rep)
  case Nil
  then show ?case by simp
next
  case (Cons col cols)
  obtain c where c: "get_col df col = Some c"
    using Cons.prems get_col_None [of df col] by (cases "get_col df col") auto
  let ?rep = "if 0 < outlier_count (cells c) then rep(col \<mapsto> outlier_count (cells c)) else rep"
  have "outlier_loop df (col # cols) rep = outlier_loop df cols ?rep"
    using c by (simp add: Let_def)
  also have "\<dots> = Inr (\<lambda>k. if k \<in> set cols \<and> 0 < count_of df k then Some (count_of df k) else ?rep k)"
    using Cons.IH [of ?rep] Cons.prems by simp
  also have "(\<lambda>k. if k \<in> set cols \<and> 0 < count_of df k then Some (count_of df k) else ?rep k)
      = (\<lambda>k. if k \<in> set (col # cols) \<and> 0 < count_of df k then Some (count_of df k) else rep k)"
    using c by (auto simp: count_of_def fun_eq_iff)
  finally show ?case .
qed

lemma numeric_columns_names: "set (numeric_columns df) \<subseteq> set (map name df)"
  by (auto simp: numeric_columns_def)

lemma numeric_columns_member:
  "get_col df col = Some c \<Longrightarrow> is_numeric (dtype c) \<Longrightarrow> col \<in> set (numeric_columns df)"
  using get_col_name [of df col c] by (force simp: numeric_columns_def)

lemma detect_outliers_report:
  assumes "get_col df col = Some c" and "is_numeric (dtype c)"
  shows "\<exists>report. detect_outliers df = Inr report
           \<and> report col = (if 0 < outlier_count (cells c) then Some (outlier_count (cells c)) else None)"
  using outlier_loop_report [OF numeric_columns_names, of df Map.empty]
    numeric_columns_member [OF assms] assms(1)
  by (simp add: detect_outliers_def count_of_def)

text \<open>
  The mean, the sample variance (divisor \<open>n - 1\<close>) and the population variance (divisor
  \<open>n\<close>) of a list of values, the count a report gives for a column (none when the column
  is not in it), and the lists all of whose values are equal.
\<close>

definition mean :: "real list \<Rightarrow> real" where
  "mean vs = sum_list vs / real (length vs)"

definition squared_deviations :: "real list \<Rightarrow> real" where
  "squared_deviations vs = sum_list (map (\<lambda>v. (v - mean vs)\<^sup>2) vs)"

definition sample_variance :: "real list \<Rightarrow> real" where
  "sample_variance vs = squared_deviations vs / real (length vs - 1)"

definition population_variance :: "real list \<Rightarrow> real" where
  "population_variance vs = squared_deviations vs / real (length vs)"

definition reported :: "(string \<rightharpoonup> nat) \<Rightarrow> string \<Rightarrow> nat" where
  "reported report col = (case report col of None \<Rightarrow> 0 | Some k \<Rightarrow> k)"

definition all_equal :: "real list \<Rightarrow> bool" where
  "all_equal vs = list_all (\<lambda>a. list_all (\<lambda>b. a = b) vs) vs"

lemma present_member: "x \<in> set xs \<Longrightarrow> num_of x = Some v \<Longrightarrow> v \<in> set (present xs)"
  by (induction xs) (auto simp: present_def split: option.splits)

lemma series_mean_present: "present xs \<noteq> [] \<Longrightarrow> series_mean xs = Some (mean (present xs))"
  by (simp add: series_mean_def mean_def Let_def)

lemma series_var_present:
  "1 < length (present xs) \<Longrightarrow> series_var xs = Some (sample_variance (present xs))"
proof -
  assume a: "1 < length (present xs)"
  then have ne: "present xs \<noteq> []" by auto
  have "(\<lambda>v. (mean (present xs) - v)\<^sup>2) = (\<lambda>v. (v - mean (present xs))\<^sup>2)"
    by (simp add: fun_eq_iff power2_commute)
  then show ?thesis
    using a by (simp add: series_var_def series_mean_present [OF ne] sample_variance_def
        squared_deviations_def Let_def)
qed

lemma series_var_few: "length (present xs) \<le> 1 \<Longrightarrow> series_var xs = None"
  by (simp add: series_var_def series_mean_def Let_def)

lemma count_filter_present:
  assumes "\<And>x v. num_of x = Some v \<Longrightarrow> P x = Q v" and "\<And>x. num_of x = None \<Longrightarrow> \<not> P x"
  shows "length (filter (\<lambda>b. b) (map P xs)) = length (filter Q (present xs))"
proof (induction xs)
  case Nil
  then show ?case by (simp add: present_def)
next
  case (Cons x xs)
  show ?case
  proof (cases "num_of x")
    case None
    then show ?thesis
      using Cons assms(2) [OF None] by (simp add: present_def)
  next
    case (Some v)
    then show ?thesis
      using Cons assms(1) [OF Some] by (simp add: present_def)
  qed
qed

lemma sum_list_all_equal: "(\<And>a. a \<in> set vs \<Longrightarrow> a = v) \<Longrightarrow> sum_list vs = real (length vs) * v"
  by (induction vs) (simp_all add: algebra_simps)

lemma all_equal_mean:
  assumes "all_equal vs" and "a \<in> set vs"
  shows "mean vs = a"
proof -
  have "\<And>b. b \<in> set vs \<Longrightarrow> b = a"
    using assms by (auto simp: all_equal_def list_all_iff)
  then have "sum_list vs = real (length vs) * a"
    by (rule sum_list_all_equal)
  moreover have "vs \<noteq> []" using assms(2) by auto
  ultimately show ?thesis by (simp add: mean_def)
qed

lemma all_equal_no_outliers:
  assumes "all_equal (present xs)"
  shows "outlier_count xs = 0"
proof -
  have "\<not> abs_gt3 (z_score (series_mean xs) (series_std xs) x)" if "x \<in> set xs" for x
  proof (cases "num_of x")
    case None
    then show ?thesis by (simp add: z_score_def)
  next
    case (Some v)
    then have v: "v \<in> set (present xs)" using that present_member by blast
    then have "present xs \<noteq> []" by (cases "present xs") simp_all
    then have m: "series_mean xs = Some v"
      using all_equal_mean [OF assms v] by (simp add: series_mean_present)
    show ?thesis
      by (cases "series_std xs") (simp_all add: z_score_def Some m fdiv_def)
  qed
  then show ?thesis
    by (simp add: outlier_count_def filter_empty_conv)
qed

lemma not_all_equal_spread:
  assumes "\<not> all_equal vs"
  shows "1 < length vs" and "0 < sample_variance vs"
proof -
  obtain a b where ab: "a \<in> set vs" "b \<in> set vs" "a \<noteq> b"
    using assms by (auto simp: all_equal_def list_all_iff)
  show l: "1 < length vs"
  proof (rule ccontr)
    assume "\<not> 1 < length vs"
    then have "length vs \<le> 1" by simp
    then obtain x where "vs = [] \<or> vs = [x]"
      by (cases vs) (auto simp: le_Suc_eq)
    then show False using ab by auto
  qed
  obtain c where c: "c \<in> set vs" "c \<noteq> mean vs"
    using ab by metis
  have nn: "\<And>v. v \<in> set vs \<Longrightarrow> 0 \<le> (v - mean vs)\<^sup>2" by simp
  have "c - mean vs \<noteq> 0" using c(2) by simp
  then have "0 < (c - mean vs)\<^sup>2" by (rule zero_less_power2 [THEN iffD2])
  moreover have "(c - mean vs)\<^sup>2 \<le> sum_list (map (\<lambda>v. (v - mean vs)\<^sup>2) vs)"
    using c(1) by (intro member_le_sum_list) auto
  ultimately have "0 < sum_list (map (\<lambda>v. (v - mean vs)\<^sup>2) vs)"
    by (rule less_le_trans)
  then have "0 < squared_deviations vs"
    by (simp add: squared_deviations_def)
  then show "0 < sample_variance vs"
    using l by (simp add: sample_variance_def)
qed

lemma abs_ratio_gt3:
  assumes "0 < s2"
  shows "(3 < \<bar>d / sqrt s2\<bar>) = (9 * s2 < d\<^sup>2)"
proof -
  have s: "0 < sqrt s2" using assms by simp
  have "(3 < \<bar>d / sqrt s2\<bar>) = (3 * sqrt s2 < \<bar>d\<bar>)"
    using s by (simp add: pos_less_divide_eq)
  also have "\<dots> = ((3 * sqrt s2)\<^sup>2 < \<bar>d\<bar>\<^sup>2)"
  proof
    assume "3 * sqrt s2 < \<bar>d\<bar>"
    then show "(3 * sqrt s2)\<^sup>2 < \<bar>d\<bar>\<^sup>2"
      using s by (intro power_strict_mono) auto
  next
    assume "(3 * sqrt s2)\<^sup>2 < \<bar>d\<bar>\<^sup>2"
    then show "3 * sqrt s2 < \<bar>d\<bar>"
      by (rule power2_less_imp_less) simp
  qed
  also have "\<dots> = (9 * s2 < d\<^sup>2)"
    using assms by (simp add: power_mult_distrib)
  finally show ?thesis .
qed

lemma spread_outliers:
  assumes "\<not> all_equal (present xs)"
  shows "outlier_count xs
     = length (filter (\<lambda>v. 9 * sample_variance (present xs) < (v - mean (present xs))\<^sup>2) (present xs))"
proof -
  let ?vs = "present xs"
  have l: "1 < length ?vs" and p: "0 < sample_variance ?vs"
    using not_all_equal_spread [OF assms] by auto
  have "?vs \<noteq> []" using l by (cases ?vs) simp_all
  then have m: "series_mean xs = Some (mean ?vs)"
    by (rule series_mean_present)
  have s: "series_std xs = Some (sqrt (sample_variance ?vs))"
    using l by (simp add: series_std_def series_var_present)
  have ne: "sqrt (sample_variance ?vs) \<noteq> 0" using p by simp
  show ?thesis
    unfolding outlier_count_def
  proof (rule count_filter_present)
    fix x v assume "num_of x = Some v"
    then show "abs_gt3 (z_score (series_mean xs) (series_std xs) x)
        = (9 * sample_variance ?vs < (v - mean ?vs)\<^sup>2)"
      using ne abs_ratio_gt3 [OF p, of "v - mean ?vs"] by (simp add: z_score_def m s fdiv_def)
  next
    fix x assume "num_of x = None"
    then show "\<not> abs_gt3 (z_score (series_mean xs) (series_std xs) x)"
      by (simp add: z_score_def)
  qed
qed

lemma three_sd_squared:
  assumes "0 < s2"
  shows "(3 * sqrt s2 < \<bar>d\<bar>) = (9 * s2 < d\<^sup>2)"
proof -
  have "0 < sqrt s2" using assms by simp
  then have "(3 < \<bar>d / sqrt s2\<bar>) = (3 * sqrt s2 < \<bar>d\<bar>)"
    by (simp add: pos_less_divide_eq)
  then show ?thesis
    using abs_ratio_gt3 [OF assms, of d] by simp
qed

lemma all_equal_std:
  assumes "all_equal (present xs)" and "1 < length (present xs)"
  shows "series_std xs = Some 0"
proof -
  let ?vs = "present xs"
  have z: "\<And>v. v \<in> set ?vs \<Longrightarrow> (v - mean ?vs)\<^sup>2 = 0"
    using all_equal_mean [OF assms(1)] by simp
  have zero: "sum_list (map f ws) = 0" if "\<And>v. v \<in> set ws \<Longrightarrow> f v = 0" for f :: "real \<Rightarrow> real" and ws
    using that by (induction ws) simp_all
  have "squared_deviations ?vs = 0"
    unfolding squared_deviations_def by (rule zero) (rule z)
  then show ?thesis
    using assms(2) by (simp add: series_std_def series_var_present sample_variance_def)
qed

text \<open>
  C6. For every dataset with a numeric column whose present values are all equal, the
  Outlier Detector returns a report, not an error, and the column is not in the report:
  zero outliers. The standard deviation of the column is zero (when it has two values or
  more), every z-score is \<^verbatim>\<open>nan\<close> and no comparison with 3 holds; the report itself
  holds counts only.
\<close>

theorem detect_outliers_constant_column:
  assumes "distinct (map name df)"
    and "get_col df col = Some c"
    and "is_numeric (dtype c)"
    and "all_equal (present (cells c))"
  shows "\<exists>report. detect_outliers df = Inr report
           \<and> report col = None
           \<and> reported report col = 0
           \<and> (1 < length (present (cells c)) \<longrightarrow> series_std (cells c) = Some 0)"
proof -
  obtain report where r: "detect_outliers df = Inr report"
    and c: "report col = (if 0 < outlier_count (cells c) then Some (outlier_count (cells c)) else None)"
    using detect_outliers_report [OF assms(2,3)] by blast
  have "outlier_count (cells c) = 0"
    using assms(4) by (rule all_equal_no_outliers)
  then have "report col = None" using c by simp
  then show ?thesis
    using r all_equal_std [OF assms(4)] by (simp add: reported_def)
qed

text \<open>The theorem on the column \<^verbatim>\<open>[5, 5, 5, 5]\<close>.\<close>

definition fives :: dataframe where
  "fives =
     [\<lparr>name = ''label'', dtype = Object, cells = [TextV ''a'', TextV ''b'', TextV ''c'', TextV ''d'']\<rparr>,
      \<lparr>name = ''x'', dtype = Int64, cells = [IntV 5, IntV 5, IntV 5, IntV 5]\<rparr>]"

theorem detect_outliers_constant_column_witness:
  "\<exists>report. detect_outliers fives = Inr report \<and> report ''x'' = None
     \<and> series_std [IntV 5, IntV 5, IntV 5, IntV 5] = Some 0"
proof -
  let ?c = "\<lparr>name = ''x'', dtype = Int64, cells = [IntV 5, IntV 5, IntV 5, IntV 5]\<rparr>"
  have d: "distinct (map name fives)" and g: "get_col fives ''x'' = Some ?c"
    by (simp_all add: fives_def get_col_def)
  have n: "is_numeric (dtype ?c)" by simp
  have p: "present (cells ?c) = [5, 5, 5, 5]" by (simp add: present_def)
  have e: "all_equal (present (cells ?c))" unfolding p by (simp add: all_equal_def)
  show ?thesis
    using detect_outliers_constant_column [OF d g n e] p by auto
qed

text \<open>
  C7, as amended. For every numeric column whose present values are not all equal, the
  count the Outlier Detector reports is the number of present values \<open>x\<close> with
  \<open>\<bar>x - \<mu>\<bar> > 3 s\<close>, equivalently \<open>(x - \<mu>)\<^sup>2 > 9 s\<^sup>2\<close>, where \<open>\<mu>\<close> is the mean and \<open>s\<close>
  the sample standard deviation (divisor \<open>n - 1\<close>) of the present values.
\<close>

theorem detect_outliers_sample_deviation:
  assumes "distinct (map name df)"
    and "get_col df col = Some c"
    and "is_numeric (dtype c)"
    and "\<not> all_equal (present (cells c))"
  shows "\<exists>report. detect_outliers df = Inr report
           \<and> reported report col
               = length (filter (\<lambda>v. 3 * sqrt (sample_variance (present (cells c)))
                                        < \<bar>v - mean (present (cells c))\<bar>) (present (cells c)))
           \<and> reported report col
               = length (filter (\<lambda>v. 9 * sample_variance (present (cells c))
                                        < (v - mean (present (cells c)))\<^sup>2) (present (cells c)))"
proof -
  let ?vs = "present (cells c)"
  obtain report where r: "detect_outliers df = Inr report"
    and c: "report col = (if 0 < outlier_count (cells c) then Some (outlier_count (cells c)) else None)"
    using detect_outliers_report [OF assms(2,3)] by blast
  have "reported report col = outlier_count (cells c)"
    using c by (simp add: reported_def)
  then have a: "reported report col
      = length (filter (\<lambda>v. 9 * sample_variance ?vs < (v - mean ?vs)\<^sup>2) ?vs)"
    using spread_outliers [OF assms(4)] by simp
  have "0 < sample_variance ?vs"
    using not_all_equal_spread(2) [OF assms(4)] .
  then have "(\<lambda>v. 3 * sqrt (sample_variance ?vs) < \<bar>v - mean ?vs\<bar>)
      = (\<lambda>v. 9 * sample_variance ?vs < (v - mean ?vs)\<^sup>2)"
    using three_sd_squared by (simp add: fun_eq_iff)
  then show ?thesis
    using r a by simp
qed

text \<open>
  A column of eleven values and a missing cell: the value 20 lies more than three
  population standard deviations from the mean and less than three sample standard
  deviations.
\<close>

definition readings :: dataframe where
  "readings =
     [\<lparr>name = ''x'', dtype = Float64,
       cells = [FloatV (- 2), FloatV 2, FloatV 0, FloatV 0, FloatV 0, FloatV 0, FloatV 0,
                Missing NaN, FloatV 0, FloatV 0, FloatV 0, FloatV 20]\<rparr>]"

definition reading_values :: "real list" where
  "reading_values = [- 2, 2, 0, 0, 0, 0, 0, 0, 0, 0, 20]"

lemma reading_values_stats:
  "present (cells \<lparr>name = ''x'', dtype = Float64,
       cells = [FloatV (- 2), FloatV 2, FloatV 0, FloatV 0, FloatV 0, FloatV 0, FloatV 0,
                Missing NaN, FloatV 0, FloatV 0, FloatV 0, FloatV 20]\<rparr>) = reading_values"
  "mean reading_values = 20 / 11"
  "squared_deviations reading_values = 4088 / 11"
  "\<not> all_equal reading_values"
  by (simp_all add: present_def reading_values_def mean_def squared_deviations_def all_equal_def
      power2_eq_square)

lemma reading_values_counts:
  "length (filter (\<lambda>v. 9 * sample_variance reading_values < (v - mean reading_values)\<^sup>2) reading_values) = 0"
  "length (filter (\<lambda>v. 9 * population_variance reading_values < (v - mean reading_values)\<^sup>2) reading_values) = 1"
  unfolding sample_variance_def population_variance_def reading_values_stats
  by (simp_all add: reading_values_def power2_eq_square)

text \<open>C7 as stated fails: the detector reports no outlier for the column, and the count
  with the population standard deviation is one.\<close>

theorem detect_outliers_population_counterexample:
  "\<exists>report. detect_outliers readings = Inr report
     \<and> get_col readings ''x''
         = Some \<lparr>name = ''x'', dtype = Float64,
                 cells = [FloatV (- 2), FloatV 2, FloatV 0, FloatV 0, FloatV 0, FloatV 0, FloatV 0,
                          Missing NaN, FloatV 0, FloatV 0, FloatV 0, FloatV 20]\<rparr>
     \<and> present [FloatV (- 2), FloatV 2, FloatV 0, FloatV 0, FloatV 0, FloatV 0, FloatV 0,
                 Missing NaN, FloatV 0, FloatV 0, FloatV 0, FloatV 20] = reading_values
     \<and> \<not> all_equal reading_values
     \<and> reported report ''x'' = 0
     \<and> length (filter (\<lambda>v. 9 * population_variance reading_values < (v - mean reading_values)\<^sup>2)
                  reading_values) = 1"
proof -
  let ?c = "\<lparr>name = ''x'', dtype = Float64,
       cells = [FloatV (- 2), FloatV 2, FloatV 0, FloatV 0, FloatV 0, FloatV 0, FloatV 0,
                Missing NaN, FloatV 0, FloatV 0, FloatV 0, FloatV 20]\<rparr>"
  have g: "get_col readings ''x'' = Some ?c" by (simp add: readings_def get_col_def)
  have n: "is_numeric (dtype ?c)" by simp
  have p: "present (cells ?c) = reading_values" by (rule reading_values_stats(1))
  obtain report where r: "detect_outliers readings = Inr report"
    and c: "report ''x'' = (if 0 < outlier_count (cells ?c) then Some (outlier_count (cells ?c)) else None)"
    using detect_outliers_report [OF g n] by blast
  have "outlier_count (cells ?c) = 0"
    using spread_outliers [of "cells ?c"] reading_values_stats(4) reading_values_counts(1)
    unfolding p by simp
  then have "reported report ''x'' = 0"
    using c by (simp add: reported_def)
  then show ?thesis
    using r g p reading_values_stats(4) reading_values_counts(2) by auto
qed

text \<open>The theorem on ten zeros and a one: the one is reported.\<close>

definition spikes :: dataframe where
  "spikes =
     [\<lparr>name = ''x'', dtype = Int64,
       cells = [IntV 0, IntV 0, IntV 0, IntV 0, IntV 0, IntV 0, IntV 0, IntV 0, IntV 0, IntV 0,
                IntV 1]\<rparr>]"

theorem detect_outliers_sample_deviation_witness:
  "\<exists>report. detect_outliers spikes = Inr report \<and> reported report ''x'' = 1"
proof -
  let ?c = "\<lparr>name = ''x'', dtype = Int64,
       cells = [IntV 0, IntV 0, IntV 0, IntV 0, IntV 0, IntV 0, IntV 0, IntV 0, IntV 0, IntV 0,
                IntV 1]\<rparr>"
  let ?vs = "[0, 0, 0, 0, 0, 0, 0, 0, 0, 0, 1] :: real list"
  have d: "distinct (map name spikes)" and g: "get_col spikes ''x'' = Some ?c"
    by (simp_all add: spikes_def get_col_def)
  have n: "is_numeric (dtype ?c)" by simp
  have p: "present (cells ?c) = ?vs" by (simp add: present_def)
  have e: "\<not> all_equal (present (cells ?c))" unfolding p by (simp add: all_equal_def)
  have m: "mean ?vs = 1 / 11" by (simp add: mean_def)
  have s: "squared_deviations ?vs = 10 / 11"
    unfolding squared_deviations_def m by (simp add: power2_eq_square)
  have k: "length (filter (\<lambda>v. 9 * sample_variance ?vs < (v - mean ?vs)\<^sup>2) ?vs) = 1"
    unfolding sample_variance_def s m by (simp add: power2_eq_square)
  show ?thesis
    using detect_outliers_sample_deviation [OF d g n e] k unfolding p by auto
qed

section \<open>Further properties of the code\<close>

lemma any_axis1_frame:
  assumes "aligned df" and "i < nrows df"
  shows "any_axis1 (nrows df) (map isnull df) ! i = list_ex (\<lambda>c. is_missing (cells c ! i)) df"
    and "length (any_axis1 (nrows df) (map isnull df)) = nrows df"
proof -
  have al: "list_all (\<lambda>c. length (cells c) = nrows df) df"
    using assms(1) by (simp add: aligned_def)
  then have len: "list_all (\<lambda>m. length m = nrows df) (map isnull df)"
    by (simp add: list_all_iff isnull_def)
  have "list_all (\<lambda>c. length (cells c) = n) cs \<Longrightarrow> i < n \<Longrightarrow>
      list_ex (\<lambda>m. m ! i) (map isnull cs) = list_ex (\<lambda>c. is_missing (cells c ! i)) cs" for cs n
    by (induction cs) (simp_all add: isnull_def)
  then show "any_axis1 (nrows df) (map isnull df) ! i = list_ex (\<lambda>c. is_missing (cells c ! i)) df"
    using any_axis1_nth [OF len assms(2)] al assms(2) by simp
  show "length (any_axis1 (nrows df) (map isnull df)) = nrows df"
    using len by (rule any_axis1_length)
qed

text \<open>
  \<^verbatim>\<open>handle_missing_values\<close> with the strategy \<^verbatim>\<open>drop\<close> takes no list of columns: it
  keeps, in every column and in the original order, exactly the rows that hold no missing
  value in any column.
\<close>

theorem handle_missing_values_drop_any_column:
  assumes "aligned df"
  shows "\<exists>df'. handle_missing_values df ''drop'' method = Inr df'
           \<and> map name df' = map name df
           \<and> map cells df'
               = map (\<lambda>c. map (nth (cells c))
                       (kept_rows (\<lambda>i. \<not> list_ex (\<lambda>c. is_missing (cells c ! i)) df) (nrows df))) df"
proof -
  let ?bs = "map Not (any_axis1 (nrows df) (map isnull df))"
  have len: "length ?bs = nrows df"
  proof (cases "nrows df")
    case 0
    then have "list_all (\<lambda>m. length m = nrows df) (map isnull df)"
      using assms by (simp add: aligned_def list_all_iff isnull_def)
    then show ?thesis using any_axis1_length by fastforce
  next
    case (Suc n)
    then have "0 < nrows df" by simp
    then show ?thesis using any_axis1_frame(2) [OF assms] by simp
  qed
  have "map cells (take_rows ?bs df)
      = map (\<lambda>c. map (nth (cells c))
              (kept_rows (\<lambda>i. \<not> list_ex (\<lambda>c. is_missing (cells c ! i)) df) (nrows df))) df"
    using assms len
  proof (rule take_rows_cells)
    fix i assume "i < nrows df"
    then show "?bs ! i = (\<not> list_ex (\<lambda>c. is_missing (cells c ! i)) df)"
      using any_axis1_frame [OF assms] by simp
  qed
  then show ?thesis
    by (simp add: handle_missing_values_def dropna_def take_rows_names)
qed

text \<open>The theorem on the frame of four rows: the rows with a missing city or a missing age
  are dropped.\<close>

theorem handle_missing_values_drop_any_column_witness:
  "\<forall>how. \<exists>df'. handle_missing_values customers ''drop'' how = Inr df'
      \<and> map cells df' = [[IntV 1, IntV 4], [TextV ''Pune'', TextV ''Pune''], [FloatV 30, FloatV 30]]"
proof
  fix how
  have a: "aligned customers"
    by (simp add: customers_def aligned_def nrows_def)
  have n: "nrows customers = 4"
    by (simp add: customers_def nrows_def)
  have k: "kept_rows (\<lambda>i. \<not> list_ex (\<lambda>c. is_missing (cells c ! i)) customers) 4 = [0, 3]"
  proof -
    have u: "[0..<4] = [0, 1, 2, 3::nat]" by (simp add: upt_rec)
    show ?thesis unfolding kept_rows_def u by (simp add: customers_def)
  qed
  obtain df' where r: "handle_missing_values customers ''drop'' how = Inr df'"
    and cl: "map cells df' = map (\<lambda>c. map (nth (cells c)) [0, 3]) customers"
    using handle_missing_values_drop_any_column [OF a, of how] n k by auto
  have "map cells df' = [[IntV 1, IntV 4], [TextV ''Pune'', TextV ''Pune''], [FloatV 30, FloatV 30]]"
    using cl by (simp add: customers_def)
  then show "\<exists>df'. handle_missing_values customers ''drop'' how = Inr df'
      \<and> map cells df' = [[IntV 1, IntV 4], [TextV ''Pune'', TextV ''Pune''], [FloatV 30, FloatV 30]]"
    using r by simp
qed

text \<open>
  The pattern has no word boundary behind the title and tries \<^verbatim>\<open>mr\<close> before
  \<^verbatim>\<open>mrs\<close>: of \<^verbatim>\<open>Mrs. Smith\<close> it removes \<^verbatim>\<open>Mr\<close> only, and of \<^verbatim>\<open>Drake\<close> it
  removes \<^verbatim>\<open>Dr\<close>. A leading title with its period and whitespace is removed whole.
\<close>

theorem remove_extra_titles_partial_words:
  "re_sub_titles ''Mrs. Smith'' = ''s. Smith''
   \<and> re_sub_titles ''Drake'' = ''ake''
   \<and> re_sub_titles ''Dr. Jane Smith'' = ''Jane Smith''"
  by code_simp

end
